theory Spec2Isabelle
  imports Complex_Main
begin

section \<open>Wikipedia embedding benchmark: chunking, batching, readiness, throughput\<close>

text \<open>
  A shallow embedding of \<^verbatim>\<open>applications/wikipedia/main.py\<close>.
  Python exceptions are values of the type \<open>error\<close>; a function that may raise
  returns \<open>error + 'a\<close> with \<open>Inl\<close> for the exception. Python integers are
  \<open>int\<close>; Python floats are doubles, with every operation rounded to the nearest
  double as the machine rounds it. A Python \<open>str\<close> is a sequence of code points; the
  text of a row is a list over an arbitrary character type \<open>'c\<close>, so that
  \<open>length\<close> counts what Python's \<open>len\<close> counts.
\<close>

subsection \<open>Exceptions\<close>

datatype error =
    ValueError
  | ZeroDivisionError
  | OverflowError
  | IndexError
  | RuntimeError int
  | OSError

subsection \<open>Python primitives used by the source\<close>

text \<open>
  \<^verbatim>\<open>range(start, stop, step)\<close>: a zero step raises \<open>ValueError\<close>, a positive step
  counts up while below \<open>stop\<close>, a negative step counts down while above \<open>stop\<close>.
\<close>

function range_up :: "int \<Rightarrow> int \<Rightarrow> int \<Rightarrow> int list" where
  "range_up i stop step =
     (if 0 < step \<and> i < stop then i # range_up (i + step) stop step else [])"
  by pat_completeness auto
termination
  by (relation "measure (\<lambda>(i, stop, step). nat (stop - i))") auto

function range_down :: "int \<Rightarrow> int \<Rightarrow> int \<Rightarrow> int list" where
  "range_down i stop step =
     (if step < 0 \<and> stop < i then i # range_down (i + step) stop step else [])"
  by pat_completeness auto
termination
  by (relation "measure (\<lambda>(i, stop, step). nat (i - stop))") auto

declare range_up.simps [simp del] range_down.simps [simp del]

definition py_range :: "int \<Rightarrow> int \<Rightarrow> int \<Rightarrow> error + int list" where
  "py_range start stop step =
     (if step = 0 then Inl ValueError
      else if 0 < step then Inr (range_up start stop step)
      else Inr (range_down start stop step))"

text \<open>
  \<^verbatim>\<open>s[a:b]\<close>: a negative bound counts from the end, and both bounds are clamped to
  \<open>[0, len(s)]\<close>; the slice is empty when the bounds cross.
\<close>

definition slice_bound :: "int \<Rightarrow> nat \<Rightarrow> nat" where
  "slice_bound i n = (if i < 0 then nat (max 0 (i + int n)) else min (nat i) n)"

definition slice :: "'c list \<Rightarrow> int \<Rightarrow> int \<Rightarrow> 'c list" where
  "slice s a b =
     (let lo = slice_bound a (length s); hi = slice_bound b (length s)
      in take (hi - lo) (drop lo s))"

subsection \<open>Chunker: \<^verbatim>\<open>generate_chunks_from_dataset\<close>\<close>

record 'c row =
  row_text :: "'c list"

text \<open>
  The inner loop, over one row:
  \<^verbatim>\<open>for chunk_start in range(0, len(text), chunk_size): yield text[chunk_start : chunk_start + chunk_size]\<close>
\<close>

definition record_chunks :: "'c list \<Rightarrow> int \<Rightarrow> error + 'c list list" where
  "record_chunks txt chunk_size =
     (case py_range 0 (int (length txt)) chunk_size of
        Inl e \<Rightarrow> Inl e
      | Inr starts \<Rightarrow>
          Inr (map (\<lambda>chunk_start. slice txt chunk_start (chunk_start + chunk_size)) starts))"

text \<open>
  The outer loop, \<^verbatim>\<open>for data in xs\<close>. The generator is consumed to its end by the
  caller (\<^verbatim>\<open>list(batches)\<close>), so the model returns all chunks, or the first exception.
\<close>

fun generate_chunks_from_dataset :: "'c row list \<Rightarrow> int \<Rightarrow> error + 'c list list" where
  "generate_chunks_from_dataset [] chunk_size = Inr []"
| "generate_chunks_from_dataset (data # xs) chunk_size =
     (case record_chunks (row_text data) chunk_size of
        Inl e \<Rightarrow> Inl e
      | Inr cs \<Rightarrow>
          (case generate_chunks_from_dataset xs chunk_size of
             Inl e \<Rightarrow> Inl e
           | Inr rest \<Rightarrow> Inr (cs @ rest)))"

subsection \<open>Batcher: \<^verbatim>\<open>generate_batches\<close>\<close>

text \<open>
  \<^verbatim>\<open>batch\<close> is the accumulator of the loop; the test \<^verbatim>\<open>len(batch) == batch_size\<close>
  compares with a Python integer, which may be zero or negative (then it never holds).
\<close>

fun batches_loop :: "'a list \<Rightarrow> int \<Rightarrow> 'a list \<Rightarrow> 'a list list" where
  "batches_loop [] batch_size batch = (if batch \<noteq> [] then [batch] else [])"
| "batches_loop (x # xs) batch_size batch =
     (let batch' = batch @ [x]
      in if int (length batch') = batch_size
         then batch' # batches_loop xs batch_size []
         else batches_loop xs batch_size batch')"

definition generate_batches :: "'a list \<Rightarrow> int \<Rightarrow> 'a list list" where
  "generate_batches xs batch_size = batches_loop xs batch_size []"

text \<open>The call with \<^verbatim>\<open>batch_size\<close> omitted: \<^verbatim>\<open>def generate_batches(xs, batch_size=50)\<close>.\<close>

definition generate_batches_default :: "'a list \<Rightarrow> 'a list list" where
  "generate_batches_default xs = generate_batches xs 50"

subsection \<open>Waiting for the server: \<^verbatim>\<open>spawn_server\<close>\<close>

text \<open>
  The loop talks to the outside world twice per round: it tries to connect, and after a
  timeout or a refused connection it polls the launched process. The world is a sequence
  of probes: what the connection attempt of round \<open>k\<close> does, and what
  \<^verbatim>\<open>process.poll()\<close> returns in that round (\<open>None\<close> while the process runs, its
  exit code afterwards). \<open>ConnectFailed\<close> stands for any exception of
  \<^verbatim>\<open>socket.create_connection\<close> that the \<^verbatim>\<open>except\<close> clause does not catch;
  it leaves the function as it is raised.
\<close>

datatype connect_result = Connected | TimedOut | Refused | ConnectFailed

record probe =
  connect :: connect_result
  poll :: "int option"

text \<open>
  \<^verbatim>\<open>while True\<close> may run forever (a process that stays alive and never listens), so the
  loop is a partial function: \<open>None\<close> is the run that never returns. A returning run
  gives the exception, or the process handle together with the line printed.
\<close>

text \<open>\<^verbatim>\<open>except (socket.timeout, ConnectionRefusedError)\<close>: the exceptions the loop catches.\<close>

fun caught :: "connect_result \<Rightarrow> bool" where
  "caught TimedOut = True"
| "caught Refused = True"
| "caught _ = False"

partial_function (option) spawn_loop ::
  "'p \<Rightarrow> (nat \<Rightarrow> probe) \<Rightarrow> nat \<Rightarrow> (error + 'p \<times> string list) option" where
  "spawn_loop process world k =
     (if connect (world k) = Connected then Some (Inr (process, [''Webserver ready!'']))
      else if caught (connect (world k)) then
        (case poll (world k) of
           Some retcode \<Rightarrow> Some (Inl (RuntimeError retcode))
         | None \<Rightarrow> spawn_loop process world (Suc k))
      else Some (Inl OSError))"

declare spawn_loop.simps [code]

definition spawn_server :: "'p \<Rightarrow> (nat \<Rightarrow> probe) \<Rightarrow> (error + 'p \<times> string list) option" where
  "spawn_server process world = spawn_loop process world 0"

subsection \<open>Python floats\<close>

text \<open>
  A Python float is an IEEE 754 double: a rational number with a mantissa of 53 bits and an
  exponent between \<open>-1074\<close> and \<open>971\<close>, an infinity, or not a number. The two zeros
  are one value here: Python raises on a division by either, so the sign of a zero never
  reaches a result of this program.
\<close>

datatype pyfloat = Finite rat | PosInf | NegInf | NaN

text \<open>
  \<open>ilog2 a\<close> is the exponent \<open>e\<close> with \<open>2^e \<le> a < 2^(e+1)\<close> of a positive
  rational, found by halving a number from 1 upwards and doubling a number below 1.
\<close>

function ilog2_up :: "rat \<Rightarrow> int" where
  "ilog2_up a = (if a < 2 then 0 else 1 + ilog2_up (a / 2))"
  by pat_completeness auto
termination
proof (relation "measure (\<lambda>a. nat \<lceil>a\<rceil>)")
  show "wf (measure (\<lambda>a::rat. nat \<lceil>a\<rceil>))" by simp
next
  fix a :: rat
  assume "\<not> a < 2"
  then have "2 \<le> \<lceil>a\<rceil>" by linarith
  then have "(2::rat) \<le> of_int \<lceil>a\<rceil>" by (metis of_int_le_iff of_int_numeral)
  moreover have "a \<le> of_int \<lceil>a\<rceil>" by (rule le_of_int_ceiling)
  ultimately have "a / 2 \<le> of_int \<lceil>a\<rceil> - 1" by linarith
  then have "a / 2 \<le> of_int (\<lceil>a\<rceil> - 1)" by simp
  then have "\<lceil>a / 2\<rceil> \<le> \<lceil>a\<rceil> - 1" by (simp only: ceiling_le_iff)
  with \<open>2 \<le> \<lceil>a\<rceil>\<close> show "(a / 2, a) \<in> measure (\<lambda>a. nat \<lceil>a\<rceil>)" by simp
qed

function ilog2_down :: "rat \<Rightarrow> int" where
  "ilog2_down a = (if a \<le> 0 \<or> 1 \<le> a then 0 else ilog2_down (2 * a) - 1)"
  by pat_completeness auto
termination
proof (relation "measure (\<lambda>a. nat \<lceil>1 / a\<rceil>)")
  show "wf (measure (\<lambda>a::rat. nat \<lceil>1 / a\<rceil>))" by simp
next
  fix a :: rat
  assume "\<not> (a \<le> 0 \<or> 1 \<le> a)"
  then have a: "0 < a" "a < 1" by simp_all
  define y where "y = 1 / a"
  have "1 < y" using a by (simp add: y_def)
  then have "2 \<le> \<lceil>y\<rceil>" by linarith
  then have "(2::rat) \<le> of_int \<lceil>y\<rceil>" by (metis of_int_le_iff of_int_numeral)
  moreover have "y \<le> of_int \<lceil>y\<rceil>" by (rule le_of_int_ceiling)
  ultimately have "y / 2 \<le> of_int \<lceil>y\<rceil> - 1" by linarith
  then have "y / 2 \<le> of_int (\<lceil>y\<rceil> - 1)" by simp
  then have "\<lceil>y / 2\<rceil> \<le> \<lceil>y\<rceil> - 1" by (simp only: ceiling_le_iff)
  moreover have "y / 2 = 1 / (2 * a)" by (simp add: y_def)
  ultimately have "\<lceil>1 / (2 * a)\<rceil> \<le> \<lceil>1 / a\<rceil> - 1" by (simp only: y_def)
  then have lt: "\<lceil>1 / (2 * a)\<rceil> < \<lceil>1 / a\<rceil>" by linarith
  have "0 < \<lceil>1 / a\<rceil>" using \<open>2 \<le> \<lceil>y\<rceil>\<close> by (simp only: y_def)
  then have "nat \<lceil>1 / (2 * a)\<rceil> < nat \<lceil>1 / a\<rceil>" using lt by (simp only: nat_mono_iff)
  then show "(2 * a, a) \<in> measure (\<lambda>a. nat \<lceil>1 / a\<rceil>)" by (simp only: in_measure)
qed

declare ilog2_up.simps [simp del] ilog2_down.simps [simp del]

definition ilog2 :: "rat \<Rightarrow> int" where
  "ilog2 a = (if 1 \<le> a then ilog2_up a else ilog2_down a)"

text \<open>Rounding to the nearest integer, a tie to the even one.\<close>

definition round_half_even :: "rat \<Rightarrow> int" where
  "round_half_even x =
     (let f = \<lfloor>x\<rfloor>; d = x - of_int f
      in if d < 1 / 2 then f
         else if 1 / 2 < d then f + 1
         else if even f then f else f + 1)"

text \<open>
  Rounding a rational to the nearest double, a tie to the even mantissa. The exponent of a
  number below \<open>2^-1022\<close> is held at \<open>-1022\<close> (the subnormal numbers); a magnitude
  that rounds to \<open>2^1024\<close> or more is an infinity.
\<close>

definition double_exponent :: "rat \<Rightarrow> int" where
  "double_exponent a = max (ilog2 a) (- 1022)"

definition round_at :: "int \<Rightarrow> rat \<Rightarrow> rat" where
  "round_at e a = of_int (round_half_even (a / power_int 2 (e - 52))) * power_int 2 (e - 52)"

definition round_to_double :: "rat \<Rightarrow> pyfloat" where
  "round_to_double x =
     (if x = 0 then Finite 0
      else
        let r = round_at (double_exponent \<bar>x\<bar>) \<bar>x\<bar>
        in if power_int 2 1024 \<le> r then (if x < 0 then NegInf else PosInf)
           else Finite (if x < 0 then - r else r))"

text \<open>
  The conversion of an integer in mixed arithmetic (\<^verbatim>\<open>int * float\<close>, \<^verbatim>\<open>int / float\<close>):
  the nearest double, or \<open>OverflowError\<close> for an integer too large for a float.
\<close>

definition float_of_int :: "int \<Rightarrow> error + pyfloat" where
  "float_of_int i =
     (case round_to_double (of_int i) of
        Finite r \<Rightarrow> Inr (Finite r)
      | _ \<Rightarrow> Inl OverflowError)"

definition float_sign :: "pyfloat \<Rightarrow> int" where
  "float_sign x =
     (case x of
        Finite a \<Rightarrow> (if a < 0 then - 1 else if a = 0 then 0 else 1)
      | PosInf \<Rightarrow> 1
      | NegInf \<Rightarrow> - 1
      | NaN \<Rightarrow> 0)"

text \<open>\<^verbatim>\<open>x * y\<close> on floats: the rounded product; an infinity times zero is not a number.\<close>

fun float_mul :: "pyfloat \<Rightarrow> pyfloat \<Rightarrow> pyfloat" where
  "float_mul NaN y = NaN"
| "float_mul x NaN = NaN"
| "float_mul (Finite a) (Finite b) = round_to_double (a * b)"
| "float_mul x y =
     (if float_sign x * float_sign y = 0 then NaN
      else if 0 < float_sign x * float_sign y then PosInf else NegInf)"

text \<open>
  \<^verbatim>\<open>x / y\<close> on floats: \<open>ZeroDivisionError\<close> for a zero divisor, whatever the dividend;
  otherwise the rounded quotient, with the rules of the infinities.
\<close>

fun float_div :: "pyfloat \<Rightarrow> pyfloat \<Rightarrow> pyfloat" where
  "float_div NaN y = NaN"
| "float_div x NaN = NaN"
| "float_div (Finite a) (Finite b) = round_to_double (a / b)"
| "float_div (Finite a) y = Finite 0"
| "float_div x (Finite b) = (if 0 < float_sign x * float_sign (Finite b) then PosInf else NegInf)"
| "float_div x y = NaN"

definition float_truediv :: "pyfloat \<Rightarrow> pyfloat \<Rightarrow> error + pyfloat" where
  "float_truediv x y = (if y = Finite 0 then Inl ZeroDivisionError else Inr (float_div x y))"

text \<open>
  \<^verbatim>\<open>a / b\<close> on integers: \<open>ZeroDivisionError\<close> for a zero divisor, otherwise the double
  nearest to the quotient, or \<open>OverflowError\<close> when that is too large for a float.
\<close>

definition int_truediv :: "int \<Rightarrow> int \<Rightarrow> error + pyfloat" where
  "int_truediv a b =
     (if b = 0 then Inl ZeroDivisionError
      else case round_to_double (of_int a / of_int b) of
             Finite q \<Rightarrow> Inr (Finite q)
           | _ \<Rightarrow> Inl OverflowError)"

text \<open>
  \<^verbatim>\<open>int(x)\<close> of a float truncates towards zero; it raises \<open>ValueError\<close> for not a
  number and \<open>OverflowError\<close> for an infinity.
\<close>

definition py_trunc :: "rat \<Rightarrow> int" where
  "py_trunc x = (if x < 0 then \<lceil>x\<rceil> else \<lfloor>x\<rfloor>)"

definition py_int :: "pyfloat \<Rightarrow> error + int" where
  "py_int x =
     (case x of
        Finite a \<Rightarrow> Inr (py_trunc a)
      | NaN \<Rightarrow> Inl ValueError
      | _ \<Rightarrow> Inl OverflowError)"

subsection \<open>Durations: \<^verbatim>\<open>datetime.timedelta\<close>\<close>

text \<open>
  A \<^verbatim>\<open>timedelta\<close> is a whole number of microseconds, kept as days, seconds in
  \<open>[0, 86400)\<close> and microseconds in \<open>[0, 10^6)\<close>; more than 999999999 days in either
  direction raise \<open>OverflowError\<close>.
\<close>

record timedelta =
  days :: int
  seconds :: int
  microseconds :: int

definition timedelta_of_microseconds :: "int \<Rightarrow> error + timedelta" where
  "timedelta_of_microseconds us =
     (let d = us div 86400000000;
          r = us mod 86400000000
      in if 999999999 < \<bar>d\<bar> then Inl OverflowError
         else Inr \<lparr>days = d, seconds = r div 1000000, microseconds = r mod 1000000\<rparr>)"

text \<open>\<^verbatim>\<open>timedelta(seconds=n)\<close> for an integer \<open>n\<close>.\<close>

definition timedelta_of_int :: "int \<Rightarrow> error + timedelta" where
  "timedelta_of_int n = timedelta_of_microseconds (n * 1000000)"

text \<open>
  \<^verbatim>\<open>timedelta(seconds=x)\<close> for a float \<open>x\<close>: the whole seconds are taken exactly; the
  fraction, when there is one, is multiplied by \<open>10^6\<close> in float arithmetic; the sum is
  rounded to a whole number of microseconds, a tie to the even one.
\<close>

definition timedelta_of_float :: "pyfloat \<Rightarrow> error + timedelta" where
  "timedelta_of_float x =
     (case py_int x of
        Inl e \<Rightarrow> Inl e
      | Inr whole \<Rightarrow>
          (case x of
             Finite s \<Rightarrow>
               (let frac = s - of_int whole
                in if frac = 0 then timedelta_of_microseconds (whole * 1000000)
                   else case float_mul (Finite 1000000) (Finite frac) of
                          Finite us \<Rightarrow>
                            timedelta_of_microseconds
                              (round_half_even (of_int (whole * 1000000) + us))
                        | _ \<Rightarrow> Inl OverflowError)
           | _ \<Rightarrow> Inl OverflowError))"

text \<open>Decimal digits of a natural number, \<^verbatim>\<open>"%d"\<close>, and zero padding, \<^verbatim>\<open>"%02d"\<close>.\<close>

function str_nat :: "nat \<Rightarrow> string" where
  "str_nat n =
     (if n < 10 then [''0123456789'' ! n]
      else str_nat (n div 10) @ [''0123456789'' ! (n mod 10)])"
  by pat_completeness auto
termination
  by (relation "measure (\<lambda>n. n)") auto

declare str_nat.simps [simp del]

definition str_int :: "int \<Rightarrow> string" where
  "str_int i = (if i < 0 then ''-'' @ str_nat (nat (- i)) else str_nat (nat i))"

definition zero_pad :: "nat \<Rightarrow> int \<Rightarrow> string" where
  "zero_pad w i =
     (if i < 0 then ''-'' @ replicate (w - 1 - length (str_nat (nat (- i)))) CHR ''0'' @ str_nat (nat (- i))
      else replicate (w - length (str_nat (nat i))) CHR ''0'' @ str_nat (nat i))"

text \<open>
  \<^verbatim>\<open>str(timedelta)\<close>: \<^verbatim>\<open>H:MM:SS\<close>, after \<^verbatim>\<open>"N day, "\<close> or \<^verbatim>\<open>"N days, "\<close> when
  the days are not zero, and before \<^verbatim>\<open>".ffffff"\<close> when the microseconds are not zero.
\<close>

definition timedelta_str :: "timedelta \<Rightarrow> string" where
  "timedelta_str td =
     (let mm = seconds td div 60;
          ss = seconds td mod 60;
          hh = mm div 60;
          mm = mm mod 60;
          s = str_int hh @ '':'' @ zero_pad 2 mm @ '':'' @ zero_pad 2 ss;
          s = (if days td \<noteq> 0
               then str_int (days td) @ '' day'' @ (if \<bar>days td\<bar> \<noteq> 1 then ''s'' else [])
                    @ '', '' @ s
               else s)
      in if microseconds td \<noteq> 0 then s @ ''.'' @ zero_pad 6 (microseconds td) else s)"

subsection \<open>Throughput statistics: the end of \<^verbatim>\<open>embed_dataset\<close>\<close>

definition N_GPU :: int where
  "N_GPU = 6"

definition BATCH_SIZE :: int where
  "BATCH_SIZE = 128"

text \<open>\<^verbatim>\<open>dataset_chars = 19560538957\<close>, the literal in the body of \<^verbatim>\<open>embed_dataset\<close>.\<close>

definition dataset_chars :: int where
  "dataset_chars = 19560538957"

text \<open>The values of the returned dictionary; the dictionary keeps its keys in order.\<close>

datatype pyval = PyFloat pyfloat | PyInt int | PyStr string

type_synonym pydict = "(string \<times> pyval) list"

text \<open>
  The statements from \<^verbatim>\<open>duration = end - start\<close> to the \<^verbatim>\<open>return\<close>, as a function of
  \<^verbatim>\<open>counter\<close>, of the \<^verbatim>\<open>duration\<close> measured and of \<^verbatim>\<open>down_scale\<close>. Each line may
  raise, and the first exception ends the run.
\<close>

definition run_statistics :: "int \<Rightarrow> pyfloat \<Rightarrow> pyfloat \<Rightarrow> error + pydict" where
  "run_statistics counter duration down_scale =
     (case float_of_int counter of
        Inl e \<Rightarrow> Inl e
      | Inr counter_float \<Rightarrow>
     (case float_truediv counter_float duration of
        Inl e \<Rightarrow> Inl e
      | Inr cps \<Rightarrow>
     (case py_int cps of
        Inl e \<Rightarrow> Inl e
      | Inr characters_per_second \<Rightarrow>
     (case float_truediv duration down_scale of
        Inl e \<Rightarrow> Inl e
      | Inr ext \<Rightarrow>
     (case py_int ext of
        Inl e \<Rightarrow> Inl e
      | Inr extrapolated_duration \<Rightarrow>
     (case timedelta_of_int extrapolated_duration of
        Inl e \<Rightarrow> Inl e
      | Inr td \<Rightarrow>
     (let extrapolated_duration_fmt = timedelta_str td in
      case int_truediv dataset_chars characters_per_second of
        Inl e \<Rightarrow> Inl e
      | Inr tps \<Rightarrow>
     (case timedelta_of_float tps of
        Inl e \<Rightarrow> Inl e
      | Inr td_tps \<Rightarrow>
     (let extrapolated_duration_tps_fmt = timedelta_str td_tps in
      Inr [(''downscale'', PyFloat down_scale),
           (''n_gpu'', PyInt N_GPU),
           (''duration'', PyFloat duration),
           (''characters_per_second'', PyInt characters_per_second),
           (''extrapolated_duration'', PyInt extrapolated_duration),
           (''extrapolated_duration_fmt'', PyStr extrapolated_duration_fmt),
           (''extrapolated_duration_tps_fmt'', PyStr extrapolated_duration_tps_fmt)])))))))))"

subsection \<open>The run: \<^verbatim>\<open>TextEmbeddingsInference.embed\<close> and \<^verbatim>\<open>embed_dataset\<close>\<close>

text \<open>
  \<^verbatim>\<open>embed\<close> posts the texts of a batch to the inference server and returns the answer with
  the number of characters of the batch. The server is a parameter: a function from the
  texts to the embeddings, or to the exception of a failed request.
\<close>

definition embed :: "('c list list \<Rightarrow> error + 'e) \<Rightarrow> 'c list list \<Rightarrow> error + 'e \<times> nat" where
  "embed server texts =
     (let n_chars = sum_list (map length texts)
      in case server texts of
           Inl e \<Rightarrow> Inl e
         | Inr embeddings \<Rightarrow> Inr (embeddings, n_chars))"

text \<open>
  \<^verbatim>\<open>for text, (embedding, n_chars) in zip(batches, model.embed.map(batches, order_outputs=True))\<close>:
  the results are read in the order of the batches, as \<^verbatim>\<open>order_outputs=True\<close> asks of the
  library, and \<^verbatim>\<open>counter\<close> adds up the character counts.
\<close>

fun dispatch_loop ::
  "('c list list \<Rightarrow> error + 'e) \<Rightarrow> 'c list list list \<Rightarrow> int \<Rightarrow> error + int" where
  "dispatch_loop server [] counter = Inr counter"
| "dispatch_loop server (texts # batches) counter =
     (case embed server texts of
        Inl e \<Rightarrow> Inl e
      | Inr (embedding, n_chars) \<Rightarrow> dispatch_loop server batches (counter + int n_chars))"

text \<open>
  \<^verbatim>\<open>dataset["train"].select(indices)\<close> belongs to the \<^verbatim>\<open>datasets\<close> library: the rows
  at the given positions, in that order, and \<open>IndexError\<close> for a position outside the
  dataset.
\<close>

definition select_rows :: "'a list \<Rightarrow> int list \<Rightarrow> error + 'a list" where
  "select_rows dataset indices =
     (if list_all (\<lambda>i. 0 \<le> i \<and> i < int (length dataset)) indices
      then Inr (map (\<lambda>i. dataset ! nat i) indices)
      else Inl IndexError)"

text \<open>\<^verbatim>\<open>sample_size = int(ttl_size * down_scale)\<close>, with \<^verbatim>\<open>ttl_size\<close> the number of rows.\<close>

definition sample_size :: "'a list \<Rightarrow> pyfloat \<Rightarrow> error + int" where
  "sample_size dataset down_scale =
     (let ttl_size = int (length dataset)
      in case float_of_int ttl_size of
           Inl e \<Rightarrow> Inl e
         | Inr ttl_float \<Rightarrow> py_int (float_mul ttl_float down_scale))"

text \<open>
  The run takes the loaded dataset, the inference server, \<^verbatim>\<open>down_scale\<close> and the
  \<^verbatim>\<open>duration\<close> that the two readings of the clock around the dispatch give. Its result
  is a pair: the batches handed to \<^verbatim>\<open>model.embed.map\<close> (\<open>None\<close> when the run ends
  before that call), and the returned dictionary or the exception.
\<close>

definition embed_dataset ::
  "('c list list \<Rightarrow> error + 'e) \<Rightarrow> 'c row list \<Rightarrow> pyfloat \<Rightarrow> pyfloat
     \<Rightarrow> 'c list list list option \<times> (error + pydict)" where
  "embed_dataset server dataset down_scale duration =
     (case sample_size dataset down_scale of
        Inl e \<Rightarrow> (None, Inl e)
      | Inr sample \<Rightarrow>
     (case py_range 0 sample 1 of
        Inl e \<Rightarrow> (None, Inl e)
      | Inr indices \<Rightarrow>
     (case select_rows dataset indices of
        Inl e \<Rightarrow> (None, Inl e)
      | Inr subset' \<Rightarrow>
     (case generate_chunks_from_dataset subset' 400 of
        Inl e \<Rightarrow> (None, Inl e)
      | Inr text_chunks \<Rightarrow>
     (let materialized_batchs = generate_batches text_chunks BATCH_SIZE
      in case dispatch_loop server materialized_batchs 0 of
           Inl e \<Rightarrow> (Some materialized_batchs, Inl e)
         | Inr counter \<Rightarrow>
             (Some materialized_batchs, run_statistics counter duration down_scale))))))"

section \<open>Properties\<close>

subsection \<open>Batcher\<close>

lemma batches_loop_concat:
  "concat (batches_loop xs bs batch) = batch @ xs"
  by (induction xs arbitrary: batch) (simp_all add: Let_def)

lemma batches_loop_nonempty:
  "[] \<notin> set (batches_loop xs bs batch)"
  by (induction xs arbitrary: batch) (simp_all add: Let_def)

lemma batches_loop_le:
  "int (length batch) < bs \<Longrightarrow> b \<in> set (batches_loop xs bs batch) \<Longrightarrow> int (length b) \<le> bs"
proof (induction xs arbitrary: batch)
  case Nil
  then show ?case by (simp split: if_splits)
next
  case (Cons x xs)
  show ?case
  proof (cases "int (length (batch @ [x])) = bs")
    case True
    with Cons.prems have "b = batch @ [x] \<or> b \<in> set (batches_loop xs bs [])"
      by (simp add: Let_def)
    moreover have "int (length ([]::'a list)) < bs" using Cons.prems(1) by simp
    ultimately show ?thesis using True Cons.IH[of "[]"] by auto
  next
    case False
    with Cons.prems have "b \<in> set (batches_loop xs bs (batch @ [x]))"
      by (simp add: Let_def)
    moreover have "int (length (batch @ [x])) < bs" using False Cons.prems(1) by simp
    ultimately show ?thesis using Cons.IH by blast
  qed
qed

lemma batches_loop_butlast:
  "int (length batch) < bs \<Longrightarrow> b \<in> set (butlast (batches_loop xs bs batch)) \<Longrightarrow> int (length b) = bs"
proof (induction xs arbitrary: batch)
  case Nil
  then show ?case by (simp split: if_splits)
next
  case (Cons x xs)
  show ?case
  proof (cases "int (length (batch @ [x])) = bs")
    case True
    with Cons.prems have "b = batch @ [x] \<or> b \<in> set (butlast (batches_loop xs bs []))"
      by (auto simp add: Let_def split: if_splits)
    moreover have "int (length ([]::'a list)) < bs" using Cons.prems(1) by simp
    ultimately show ?thesis using True Cons.IH[of "[]"] by auto
  next
    case False
    with Cons.prems have "b \<in> set (butlast (batches_loop xs bs (batch @ [x])))"
      by (simp add: Let_def)
    moreover have "int (length (batch @ [x])) < bs" using False Cons.prems(1) by simp
    ultimately show ?thesis using Cons.IH by blast
  qed
qed

text \<open>
  Claim C3. For a positive \<open>batch_size\<close> the batches, put end to end, are the input
  chunks in their order, so the chunk counts agree; no batch is empty, none is longer than
  \<open>batch_size\<close>, every batch but the last has exactly \<open>batch_size\<close> chunks, and an
  empty input gives no batch.
\<close>

theorem generate_batches_complete:
  assumes "0 < batch_size"
  shows "concat (generate_batches xs batch_size) = xs
       \<and> sum_list (map length (generate_batches xs batch_size)) = length xs
       \<and> (\<forall>b \<in> set (generate_batches xs batch_size). b \<noteq> [] \<and> int (length b) \<le> batch_size)
       \<and> (\<forall>b \<in> set (butlast (generate_batches xs batch_size)). int (length b) = batch_size)
       \<and> (xs = [] \<longrightarrow> generate_batches xs batch_size = [])"
proof -
  have c: "concat (generate_batches xs batch_size) = xs"
    by (simp add: generate_batches_def batches_loop_concat)
  have "length (concat (generate_batches xs batch_size)) = length xs"
    by (simp only: c)
  then have s: "sum_list (map length (generate_batches xs batch_size)) = length xs"
    by (simp add: length_concat)
  have n: "\<forall>b \<in> set (generate_batches xs batch_size). b \<noteq> [] \<and> int (length b) \<le> batch_size"
    using assms batches_loop_nonempty[of xs batch_size "[]"] batches_loop_le[of "[]" batch_size _ xs]
    by (auto simp: generate_batches_def)
  have l: "\<forall>b \<in> set (butlast (generate_batches xs batch_size)). int (length b) = batch_size"
    using assms batches_loop_butlast[of "[]" batch_size _ xs]
    by (auto simp: generate_batches_def)
  have e: "xs = [] \<longrightarrow> generate_batches xs batch_size = []"
    by (simp add: generate_batches_def)
  from c s n l e show ?thesis by blast
qed

theorem generate_batches_complete_witness:
  "(0::int) < 3
   \<and> generate_batches ''abcdefg'' 3 = [''abc'', ''def'', ''g'']
   \<and> concat (generate_batches ''abcdefg'' 3) = ''abcdefg''
   \<and> sum_list (map length (generate_batches ''abcdefg'' 3)) = length ''abcdefg''
   \<and> list_all (\<lambda>b. b \<noteq> [] \<and> int (length b) \<le> 3) (generate_batches ''abcdefg'' 3)
   \<and> list_all (\<lambda>b. int (length b) = 3) (butlast (generate_batches ''abcdefg'' 3))"
  using generate_batches_complete[of 3 "''abcdefg''"]
  by (simp add: generate_batches_def)

subsection \<open>Chunker\<close>

lemma range_up_step:
  "0 < step \<Longrightarrow> i < stop \<Longrightarrow> range_up i stop step = i # range_up (i + step) stop step"
  by (subst range_up.simps) simp

lemma range_up_stop:
  "\<not> i < stop \<Longrightarrow> range_up i stop step = []"
  by (subst range_up.simps) simp

lemma slice_chunk:
  assumes "0 \<le> a" "0 < cs"
  shows "slice txt a (a + cs) = take (nat cs) (drop (nat a) txt)"
proof (cases "nat a < length txt")
  case True
  have lo: "slice_bound a (length txt) = nat a"
    using assms True by (simp add: slice_bound_def)
  have hi: "slice_bound (a + cs) (length txt) = min (nat a + nat cs) (length txt)"
    using assms by (simp add: slice_bound_def nat_add_distrib)
  have "take (min (nat a + nat cs) (length txt) - nat a) (drop (nat a) txt)
        = take (nat cs) (drop (nat a) txt)"
  proof (cases "nat a + nat cs \<le> length txt")
    case True
    then show ?thesis by simp
  next
    case False
    then have "length (drop (nat a) txt) \<le> nat cs" by simp
    moreover have "min (nat a + nat cs) (length txt) - nat a = length (drop (nat a) txt)"
      using False by simp
    ultimately show ?thesis by (metis take_all order_refl)
  qed
  with lo hi show ?thesis by (simp add: slice_def Let_def)
next
  case False
  then show ?thesis
    using assms by (simp add: slice_def slice_bound_def Let_def)
qed

lemma range_up_bounds:
  "0 < cs \<Longrightarrow> st \<in> set (range_up i n cs) \<Longrightarrow> i \<le> st \<and> st < n"
proof (induction i n cs rule: range_up.induct)
  case (1 i stop step)
  show ?case
  proof (cases "i < stop")
    case True
    with "1.prems" have "st = i \<or> st \<in> set (range_up (i + step) stop step)"
      by (simp add: range_up_step)
    with "1.IH" "1.prems"(1) True show ?thesis by auto
  next
    case False
    with "1.prems" show ?thesis by (simp add: range_up_stop)
  qed
qed

lemma range_up_butlast:
  "0 < cs \<Longrightarrow> st \<in> set (butlast (range_up i n cs)) \<Longrightarrow> st + cs < n"
proof (induction i n cs rule: range_up.induct)
  case (1 i stop step)
  show ?case
  proof (cases "i < stop")
    case True
    note lt = this
    have unf: "range_up i stop step = i # range_up (i + step) stop step"
      using lt "1.prems"(1) by (rule_tac range_up_step)
    show ?thesis
    proof (cases "i + step < stop")
      case True
      have "range_up (i + step) stop step \<noteq> []"
        using True "1.prems"(1) by (simp add: range_up_step)
      with unf have "st = i \<or> st \<in> set (butlast (range_up (i + step) stop step))"
        using "1.prems"(2) by simp
      with "1.IH" "1.prems"(1) lt True show ?thesis by auto
    next
      case False
      then have "range_up (i + step) stop step = []"
        by (rule range_up_stop)
      with unf "1.prems"(2) show ?thesis by simp
    qed
  next
    case False
    with "1.prems" show ?thesis by (simp add: range_up_stop)
  qed
qed

lemma div_eq_one:
  fixes a step :: int
  assumes "step \<le> a" "a < 2 * step"
  shows "a div step = 1"
proof (rule int_div_pos_eq)
  show "a = step * 1 + (a - step)" by simp
  show "0 \<le> a - step" using assms by simp
  show "a - step < step" using assms by simp
qed

lemma range_up_length:
  "0 < cs \<Longrightarrow> int (length (range_up i n cs)) = (if i < n then (n - i + cs - 1) div cs else 0)"
proof (induction i n cs rule: range_up.induct)
  case (1 i stop step)
  show ?case
  proof (cases "i < stop")
    case True
    note lt = this
    have unf: "range_up i stop step = i # range_up (i + step) stop step"
      using "1.prems" lt by (rule range_up_step)
    have ih: "int (length (range_up (i + step) stop step)) =
              (if i + step < stop then (stop - (i + step) + step - 1) div step else 0)"
      using "1.IH" lt "1.prems" by simp
    show ?thesis
    proof (cases "i + step < stop")
      case True
      have "step \<noteq> 0" using "1.prems" by simp
      then have "(step + (stop - (i + step) + step - 1)) div step
                 = (stop - (i + step) + step - 1) div step + 1"
        by (rule div_add_self1)
      moreover have "step + (stop - (i + step) + step - 1) = stop - i + step - 1" by simp
      ultimately have "(stop - i + step - 1) div step = (stop - (i + step) + step - 1) div step + 1"
        by (simp only:)
      with unf ih True lt show ?thesis by simp
    next
      case False
      have "step \<le> stop - i + step - 1" "stop - i + step - 1 < 2 * step"
        using False lt by simp_all
      then have "(stop - i + step - 1) div step = 1"
        by (rule div_eq_one)
      with unf ih False lt show ?thesis by simp
    qed
  next
    case False
    then show ?thesis by (simp add: range_up_stop)
  qed
qed

lemma chunks_concat:
  "0 < cs \<Longrightarrow> 0 \<le> i \<Longrightarrow>
   concat (map (\<lambda>st. slice txt st (st + cs)) (range_up i (int (length txt)) cs)) = drop (nat i) txt"
proof (induction i "int (length txt)" cs rule: range_up.induct)
  case (1 i step)
  show ?case
  proof (cases "i < int (length txt)")
    case True
    have unf: "range_up i (int (length txt)) step = i # range_up (i + step) (int (length txt)) step"
      using "1.prems"(1) True by (rule range_up_step)
    have ih: "concat (map (\<lambda>st. slice txt st (st + step)) (range_up (i + step) (int (length txt)) step))
              = drop (nat (i + step)) txt"
      using "1.hyps" True "1.prems" by simp
    have "drop (nat (i + step)) txt = drop (nat step) (drop (nat i) txt)"
      using "1.prems" by (simp add: nat_add_distrib add.commute)
    then have "take (nat step) (drop (nat i) txt) @ drop (nat (i + step)) txt = drop (nat i) txt"
      by (simp only: append_take_drop_id)
    with unf ih "1.prems" show ?thesis by (simp add: slice_chunk)
  next
    case False
    then show ?thesis by (simp add: range_up_stop)
  qed
qed

lemma ceil_div_int:
  fixes n cs :: int
  assumes "0 < cs"
  shows "\<lceil>(of_int n :: rat) / of_int cs\<rceil> = (n + cs - 1) div cs"
proof -
  let ?q = "(n + cs - 1) div cs" and ?r = "(n + cs - 1) mod cs"
  have eq: "cs * ?q + ?r = n + cs - 1" by (rule mult_div_mod_eq)
  have lo: "0 \<le> ?r" using assms by (rule pos_mod_sign)
  have hi: "?r < cs" using assms by (rule pos_mod_bound)
  have "- n div cs = - ?q"
  proof (rule int_div_pos_eq)
    show "- n = cs * - ?q + (cs - 1 - ?r)" using eq by linarith
    show "0 \<le> cs - 1 - ?r" using hi by linarith
    show "cs - 1 - ?r < cs" using lo by linarith
  qed
  then show ?thesis by (simp add: ceiling_divide_eq_div)
qed


lemma record_chunks_pos:
  "0 < cs \<Longrightarrow> record_chunks txt cs
     = Inr (map (\<lambda>st. take (nat cs) (drop (nat st) txt)) (range_up 0 (int (length txt)) cs))"
proof -
  assume pos: "0 < cs"
  have "map (\<lambda>st. slice txt st (st + cs)) (range_up 0 (int (length txt)) cs)
        = map (\<lambda>st. take (nat cs) (drop (nat st) txt)) (range_up 0 (int (length txt)) cs)"
  proof (rule map_cong [OF refl])
    fix st assume "st \<in> set (range_up 0 (int (length txt)) cs)"
    then have "0 \<le> st" using range_up_bounds[OF pos] by blast
    then show "slice txt st (st + cs) = take (nat cs) (drop (nat st) txt)"
      using pos by (rule slice_chunk)
  qed
  with pos show ?thesis by (simp add: record_chunks_def py_range_def)
qed

lemma record_chunks_concat:
  assumes "0 < cs" "record_chunks txt cs = Inr cks"
  shows "concat cks = txt"
proof -
  have "cks = map (\<lambda>st. slice txt st (st + cs)) (range_up 0 (int (length txt)) cs)"
    using assms by (simp add: record_chunks_def py_range_def)
  then show ?thesis using chunks_concat[OF assms(1), of 0 "txt"] by simp
qed

lemma record_chunks_le:
  assumes "0 < cs" "record_chunks txt cs = Inr cks" "c \<in> set cks"
  shows "int (length c) \<le> cs"
  using assms by (auto simp: record_chunks_pos)

lemma record_chunks_full:
  assumes "0 < cs" "record_chunks txt cs = Inr cks" "c \<in> set (butlast cks)"
  shows "int (length c) = cs"
proof -
  have "cks = map (\<lambda>st. take (nat cs) (drop (nat st) txt)) (range_up 0 (int (length txt)) cs)"
    using assms(1,2) by (simp add: record_chunks_pos)
  with assms(3) obtain st where st: "st \<in> set (butlast (range_up 0 (int (length txt)) cs))"
    and c: "c = take (nat cs) (drop (nat st) txt)"
    by (auto simp: map_butlast [symmetric])
  have "st + cs < int (length txt)" using range_up_butlast[OF assms(1) st] .
  moreover have "0 \<le> st" using range_up_bounds[OF assms(1) in_set_butlastD[OF st]] by simp
  ultimately show ?thesis using assms(1) c by simp
qed

lemma record_chunks_nonempty:
  assumes "0 < cs" "record_chunks txt cs = Inr cks"
  shows "[] \<notin> set cks"
proof
  assume "[] \<in> set cks"
  moreover have "cks = map (\<lambda>st. take (nat cs) (drop (nat st) txt)) (range_up 0 (int (length txt)) cs)"
    using assms by (simp add: record_chunks_pos)
  ultimately obtain st where st: "st \<in> set (range_up 0 (int (length txt)) cs)"
    and e: "take (nat cs) (drop (nat st) txt) = []"
    by auto
  have "0 \<le> st \<and> st < int (length txt)" using range_up_bounds[OF assms(1) st] .
  then have "nat st < length txt" by linarith
  with e assms(1) show False by simp
qed

lemma record_chunks_count:
  assumes "0 < cs" "record_chunks txt cs = Inr cks"
  shows "int (length cks) = \<lceil>(of_nat (length txt) :: rat) / of_int cs\<rceil>"
proof -
  have "cks = map (\<lambda>st. take (nat cs) (drop (nat st) txt)) (range_up 0 (int (length txt)) cs)"
    using assms by (simp add: record_chunks_pos)
  then have "int (length cks) = (if 0 < int (length txt) then (int (length txt) - 0 + cs - 1) div cs else 0)"
    using range_up_length[OF assms(1), of 0 "int (length txt)"] by simp
  also have "\<dots> = (int (length txt) + cs - 1) div cs"
    using assms(1) by (auto simp: div_pos_pos_trivial)
  also have "\<dots> = \<lceil>(of_int (int (length txt)) :: rat) / of_int cs\<rceil>"
    using ceil_div_int[OF assms(1), of "int (length txt)"] by simp
  finally show ?thesis by simp
qed

lemma generate_chunks_single:
  "generate_chunks_from_dataset [d] cs = record_chunks (row_text d) cs"
  by (simp split: sum.splits)

lemma generate_chunks_nonempty:
  "0 < cs \<Longrightarrow> generate_chunks_from_dataset xs cs = Inr cks \<Longrightarrow> [] \<notin> set cks"
proof (induction xs arbitrary: cks)
  case Nil
  then show ?case by simp
next
  case (Cons d xs)
  then show ?case
    by (auto split: sum.splits dest: record_chunks_nonempty)
qed

lemma generate_chunks_total:
  "0 < cs \<Longrightarrow> \<exists>cks. generate_chunks_from_dataset xs cs = Inr cks"
  by (induction xs) (auto simp: record_chunks_pos)

lemma generate_chunks_rows:
  assumes "0 < cs"
  shows "\<exists>css. generate_chunks_from_dataset xs cs = Inr (concat css)
             \<and> list_all2 (\<lambda>d cks. record_chunks (row_text d) cs = Inr cks) xs css"
proof (induction xs)
  case Nil
  then show ?case by simp
next
  case (Cons d xs)
  then obtain css where r: "generate_chunks_from_dataset xs cs = Inr (concat css)"
    and l: "list_all2 (\<lambda>d cks. record_chunks (row_text d) cs = Inr cks) xs css"
    by blast
  obtain cks where c: "record_chunks (row_text d) cs = Inr cks"
    using assms by (simp add: record_chunks_pos)
  have "generate_chunks_from_dataset (d # xs) cs = Inr (concat (cks # css))"
    using r c by simp
  moreover have "list_all2 (\<lambda>d cks. record_chunks (row_text d) cs = Inr cks) (d # xs) (cks # css)"
    using l c by simp
  ultimately show ?case by blast
qed

text \<open>
  Claim C2. For a positive \<open>chunk_size\<close> the chunker returns, for every dataset, the
  chunks of its rows in the order of the rows; the chunks of each row, put end to end, are
  the text of that row; no chunk is longer than \<open>chunk_size\<close>, every chunk of a row but
  its last has exactly \<open>chunk_size\<close> characters, and a row with an empty text gives no
  chunk.
\<close>

theorem chunker_round_trip:
  assumes "0 < chunk_size"
  shows "\<exists>css. generate_chunks_from_dataset xs chunk_size = Inr (concat css)
           \<and> list_all2
                (\<lambda>d cks. concat cks = row_text d
                   \<and> (\<forall>c \<in> set cks. int (length c) \<le> chunk_size)
                   \<and> (\<forall>c \<in> set (butlast cks). int (length c) = chunk_size)
                   \<and> (row_text d = [] \<longrightarrow> cks = []))
                xs css"
proof -
  obtain css where r: "generate_chunks_from_dataset xs chunk_size = Inr (concat css)"
    and l: "list_all2 (\<lambda>d cks. record_chunks (row_text d) chunk_size = Inr cks) xs css"
    using generate_chunks_rows[OF assms] by blast
  have "list_all2
          (\<lambda>d cks. concat cks = row_text d
             \<and> (\<forall>c \<in> set cks. int (length c) \<le> chunk_size)
             \<and> (\<forall>c \<in> set (butlast cks). int (length c) = chunk_size)
             \<and> (row_text d = [] \<longrightarrow> cks = []))
          xs css"
    using l
  proof (rule list_all2_mono)
    fix d cks
    assume c: "record_chunks (row_text d) chunk_size = Inr cks"
    have a: "concat cks = row_text d"
      using assms c by (rule record_chunks_concat)
    have b: "\<forall>c \<in> set cks. int (length c) \<le> chunk_size"
      using record_chunks_le[OF assms c] by blast
    have f: "\<forall>c \<in> set (butlast cks). int (length c) = chunk_size"
      using record_chunks_full[OF assms c] by blast
    have e: "row_text d = [] \<longrightarrow> cks = []"
      using a record_chunks_nonempty[OF assms c] by (cases cks) auto
    from a b f e
    show "concat cks = row_text d
          \<and> (\<forall>c \<in> set cks. int (length c) \<le> chunk_size)
          \<and> (\<forall>c \<in> set (butlast cks). int (length c) = chunk_size)
          \<and> (row_text d = [] \<longrightarrow> cks = [])"
      by blast
  qed
  with r show ?thesis by blast
qed

theorem chunker_round_trip_witness:
  "(0::int) < 4
   \<and> generate_chunks_from_dataset
        [\<lparr>row_text = ''hello world''\<rparr>, \<lparr>row_text = []\<rparr>, \<lparr>row_text = ''abcd''\<rparr>] 4
      = Inr [''hell'', ''o wo'', ''rld'', ''abcd'']
   \<and> (\<exists>css. generate_chunks_from_dataset
               [\<lparr>row_text = ''hello world''\<rparr>, \<lparr>row_text = []\<rparr>, \<lparr>row_text = ''abcd''\<rparr>] 4
             = Inr (concat css)
           \<and> list_all2
                (\<lambda>d cks. concat cks = row_text d
                   \<and> (\<forall>c \<in> set cks. int (length c) \<le> 4)
                   \<and> (\<forall>c \<in> set (butlast cks). int (length c) = 4)
                   \<and> (row_text d = [] \<longrightarrow> cks = []))
                [\<lparr>row_text = ''hello world''\<rparr>, \<lparr>row_text = []\<rparr>, \<lparr>row_text = ''abcd''\<rparr>] css)"
proof -
  have "generate_chunks_from_dataset
          [\<lparr>row_text = ''hello world''\<rparr>, \<lparr>row_text = []\<rparr>, \<lparr>row_text = ''abcd''\<rparr>] 4
        = Inr [''hell'', ''o wo'', ''rld'', ''abcd'']"
    by (simp add: record_chunks_def py_range_def range_up.simps slice_def slice_bound_def)
  then show ?thesis
    using chunker_round_trip[of 4
        "[\<lparr>row_text = ''hello world''\<rparr>, \<lparr>row_text = []\<rparr>, \<lparr>row_text = ''abcd''\<rparr>]"]
    by simp
qed

text \<open>
  Claim C9. For a positive \<open>chunk_size\<close> the chunker returns, for every dataset, the
  chunks of its rows in the order of the rows; a row of \<open>n\<close> characters gives
  \<open>\<lceil>n / chunk_size\<rceil>\<close> chunks, and none of them is empty, so that no empty chunk
  goes on to the batcher.
\<close>

theorem chunker_count:
  assumes "0 < chunk_size"
  shows "\<exists>css. generate_chunks_from_dataset xs chunk_size = Inr (concat css)
           \<and> list_all2
                (\<lambda>d cks. int (length cks)
                     = \<lceil>(of_nat (length (row_text d)) :: rat) / of_int chunk_size\<rceil>
                   \<and> [] \<notin> set cks)
                xs css
           \<and> [] \<notin> set (concat css)"
proof -
  obtain css where r: "generate_chunks_from_dataset xs chunk_size = Inr (concat css)"
    and l: "list_all2 (\<lambda>d cks. record_chunks (row_text d) chunk_size = Inr cks) xs css"
    using generate_chunks_rows[OF assms] by blast
  have "list_all2
          (\<lambda>d cks. int (length cks)
               = \<lceil>(of_nat (length (row_text d)) :: rat) / of_int chunk_size\<rceil>
             \<and> [] \<notin> set cks)
          xs css"
    using l
  proof (rule list_all2_mono)
    fix d cks
    assume c: "record_chunks (row_text d) chunk_size = Inr cks"
    have "int (length cks) = \<lceil>(of_nat (length (row_text d)) :: rat) / of_int chunk_size\<rceil>"
      using assms c by (rule record_chunks_count)
    moreover have "[] \<notin> set cks"
      using assms c by (rule record_chunks_nonempty)
    ultimately
    show "int (length cks) = \<lceil>(of_nat (length (row_text d)) :: rat) / of_int chunk_size\<rceil>
          \<and> [] \<notin> set cks"
      by blast
  qed
  moreover have "[] \<notin> set (concat css)"
    using assms r by (rule generate_chunks_nonempty)
  ultimately show ?thesis using r by blast
qed

theorem chunker_count_witness:
  "(0::int) < 4
   \<and> generate_chunks_from_dataset
        [\<lparr>row_text = ''hello world''\<rparr>, \<lparr>row_text = []\<rparr>, \<lparr>row_text = ''abcde''\<rparr>] 4
      = Inr [''hell'', ''o wo'', ''rld'', ''abcd'', ''e'']
   \<and> \<lceil>(of_nat (length ''hello world'') :: rat) / of_int 4\<rceil> = 3
   \<and> \<lceil>(of_nat (length ''abcde'') :: rat) / of_int 4\<rceil> = 2
   \<and> (\<exists>css. generate_chunks_from_dataset
               [\<lparr>row_text = ''hello world''\<rparr>, \<lparr>row_text = []\<rparr>, \<lparr>row_text = ''abcde''\<rparr>] 4
             = Inr (concat css)
           \<and> list_all2
                (\<lambda>d cks. int (length cks)
                     = \<lceil>(of_nat (length (row_text d)) :: rat) / of_int 4\<rceil>
                   \<and> [] \<notin> set cks)
                [\<lparr>row_text = ''hello world''\<rparr>, \<lparr>row_text = []\<rparr>, \<lparr>row_text = ''abcde''\<rparr>] css
           \<and> [] \<notin> set (concat css))"
proof -
  have g: "generate_chunks_from_dataset
          [\<lparr>row_text = ''hello world''\<rparr>, \<lparr>row_text = []\<rparr>, \<lparr>row_text = ''abcde''\<rparr>] 4
        = Inr [''hell'', ''o wo'', ''rld'', ''abcd'', ''e'']"
    by (simp add: record_chunks_def py_range_def range_up.simps slice_def slice_bound_def)
  have a: "\<lceil>11 / 4 :: rat\<rceil> = 3"
    by (rule ceiling_unique) simp_all
  have b: "\<lceil>5 / 4 :: rat\<rceil> = 2"
    by (rule ceiling_unique) simp_all
  show ?thesis
    using g a b chunker_count[of 4
        "[\<lparr>row_text = ''hello world''\<rparr>, \<lparr>row_text = []\<rparr>, \<lparr>row_text = ''abcde''\<rparr>]"]
    by simp
qed

subsection \<open>Waiting for the server\<close>

lemma spawn_loop_skip:
  assumes "\<forall>i<k. caught (connect (world i)) \<and> poll (world i) = None"
    and "j \<le> k"
  shows "spawn_loop p world j = spawn_loop p world k"
  using assms(2)
proof (induction "k - j" arbitrary: j)
  case 0
  then show ?case by simp
next
  case (Suc n)
  then have lt: "j < k" by simp
  then have "caught (connect (world j)) \<and> poll (world j) = None"
    using assms(1) by blast
  then have "spawn_loop p world j = spawn_loop p world (Suc j)"
    by (subst spawn_loop.simps) auto
  also have "\<dots> = spawn_loop p world k"
    using Suc lt by (intro Suc.hyps) auto
  finally show ?case .
qed

text \<open>A run of the loop that returns has met a round that does not ask for a retry.\<close>

lemma spawn_loop_returns:
  assumes "spawn_loop p world k = Some y"
  shows "\<exists>j\<ge>k. \<not> (caught (connect (world j)) \<and> poll (world j) = None)"
proof (rule spawn_loop.raw_induct
    [where P = "\<lambda>p world k y. \<exists>j\<ge>k. \<not> (caught (connect (world j)) \<and> poll (world j) = None)",
      OF _ assms])
  fix f :: "'a \<Rightarrow> (nat \<Rightarrow> probe) \<Rightarrow> nat \<Rightarrow> (error + 'a \<times> string list) option"
    and p world k y
  assume IH: "\<And>p world k y. f p world k = Some y
                \<Longrightarrow> \<exists>j\<ge>k. \<not> (caught (connect (world j)) \<and> poll (world j) = None)"
  assume eq: "(if connect (world k) = Connected
               then Some (Inr (p, [''Webserver ready!'']))
               else if caught (connect (world k))
                    then case poll (world k) of
                           None \<Rightarrow> f p world (Suc k)
                         | Some retcode \<Rightarrow> Some (Inl (RuntimeError retcode))
                    else Some (Inl OSError)) = Some y"
  show "\<exists>j\<ge>k. \<not> (caught (connect (world j)) \<and> poll (world j) = None)"
  proof (cases "caught (connect (world k)) \<and> poll (world k) = None")
    case True
    then have "connect (world k) \<noteq> Connected" by auto
    with True eq have "f p world (Suc k) = Some y" by simp
    then obtain j where "Suc k \<le> j" "\<not> (caught (connect (world j)) \<and> poll (world j) = None)"
      using IH by blast
    then show ?thesis by (intro exI[of _ j]) simp
  next
    case False
    then show ?thesis by blast
  qed
qed

text \<open>
  Claim C6, as stated, fails: when the process has exited with code 1 and the connection
  attempt ends in a socket error other than a timeout or a refusal, the error that leaves
  \<^verbatim>\<open>spawn_server\<close> is that socket error; the process is not polled and the exit code
  is not reported.
\<close>

theorem spawn_server_exit_counterexample:
  "spawn_server (0::nat) (\<lambda>i. \<lparr>connect = ConnectFailed, poll = Some 1\<rparr>) = Some (Inl OSError)"
  by (simp add: spawn_server_def spawn_loop.simps)

text \<open>
  Claim C6, amended. Let every round before round \<open>k\<close> end in a timeout or a refused
  connection with the process still running. If the connection of round \<open>k\<close> also ends
  in a timeout or a refusal and the process has by then exited with code \<open>c\<close>,
  \<^verbatim>\<open>spawn_server\<close> raises the error carrying \<open>c\<close>; if the connection of round \<open>k\<close>
  succeeds, it prints its line and returns the process; if that connection ends in any
  other socket error, the error leaves \<^verbatim>\<open>spawn_server\<close> as it is. Only a process that
  stays alive behind timeouts and refusals in every round is retried forever.
\<close>

theorem spawn_server_outcome:
  assumes "\<forall>i<k. caught (connect (world i)) \<and> poll (world i) = None"
  shows "(caught (connect (world k)) \<and> poll (world k) = Some c
            \<longrightarrow> spawn_server p world = Some (Inl (RuntimeError c)))
       \<and> (connect (world k) = Connected
            \<longrightarrow> spawn_server p world = Some (Inr (p, [''Webserver ready!''])))
       \<and> (connect (world k) = ConnectFailed
            \<longrightarrow> spawn_server p world = Some (Inl OSError))
       \<and> ((\<forall>i. caught (connect (world i)) \<and> poll (world i) = None)
            \<longrightarrow> spawn_server p world = None)"
proof -
  have "spawn_server p world = spawn_loop p world k"
    unfolding spawn_server_def using assms by (rule spawn_loop_skip) simp
  moreover have "connect (world k) = Connected
      \<Longrightarrow> spawn_loop p world k = Some (Inr (p, [''Webserver ready!'']))"
    by (subst spawn_loop.simps) simp
  moreover have "caught (connect (world k)) \<and> poll (world k) = Some c
      \<Longrightarrow> spawn_loop p world k = Some (Inl (RuntimeError c))"
    by (subst spawn_loop.simps) auto
  moreover have "connect (world k) = ConnectFailed
      \<Longrightarrow> spawn_loop p world k = Some (Inl OSError)"
    by (subst spawn_loop.simps) simp
  moreover have "(\<forall>i. caught (connect (world i)) \<and> poll (world i) = None)
      \<longrightarrow> spawn_server p world = None"
  proof
    assume a: "\<forall>i. caught (connect (world i)) \<and> poll (world i) = None"
    show "spawn_server p world = None"
    proof (cases "spawn_server p world")
      case None
      then show ?thesis .
    next
      case (Some y)
      then have "spawn_loop p world 0 = Some y" by (simp add: spawn_server_def)
      then obtain j where "\<not> (caught (connect (world j)) \<and> poll (world j) = None)"
        using spawn_loop_returns[of p world 0 y] by blast
      with a show ?thesis by blast
    qed
  qed
  ultimately show ?thesis by simp
qed

theorem spawn_server_outcome_witness:
  "spawn_server (0::nat) (\<lambda>i. if i < 2 then \<lparr>connect = Refused, poll = None\<rparr>
                                else \<lparr>connect = TimedOut, poll = Some 1\<rparr>)
     = Some (Inl (RuntimeError 1))
   \<and> spawn_server (0::nat) (\<lambda>i. if i < 2 then \<lparr>connect = TimedOut, poll = None\<rparr>
                                  else \<lparr>connect = Connected, poll = None\<rparr>)
       = Some (Inr (0, [''Webserver ready!'']))
   \<and> spawn_server (0::nat) (\<lambda>i. if i < 2 then \<lparr>connect = TimedOut, poll = None\<rparr>
                                  else \<lparr>connect = ConnectFailed, poll = Some 1\<rparr>)
       = Some (Inl OSError)
   \<and> spawn_server (0::nat) (\<lambda>i. \<lparr>connect = Refused, poll = None\<rparr>) = None"
  using spawn_server_outcome[of 2 "\<lambda>i. if i < 2 then \<lparr>connect = Refused, poll = None\<rparr>
                                  else \<lparr>connect = TimedOut, poll = Some 1\<rparr>" 1 "0::nat"]
    spawn_server_outcome[of 2 "\<lambda>i. if i < 2 then \<lparr>connect = TimedOut, poll = None\<rparr>
                                  else \<lparr>connect = Connected, poll = None\<rparr>" 0 "0::nat"]
    spawn_server_outcome[of 2 "\<lambda>i. if i < 2 then \<lparr>connect = TimedOut, poll = None\<rparr>
                                  else \<lparr>connect = ConnectFailed, poll = Some 1\<rparr>" 0 "0::nat"]
    spawn_server_outcome[of 0 "\<lambda>i. \<lparr>connect = Refused, poll = None\<rparr>" 0 "0::nat"]
  by simp

subsection \<open>Floats\<close>

lemma floor_rat_numeral_div:
  "\<lfloor>numeral a / numeral b :: rat\<rfloor> = numeral a div numeral b"
  by (metis floor_divide_of_int_eq of_int_numeral)

lemma round_half_even_nonneg:
  "0 \<le> x \<Longrightarrow> 0 \<le> round_half_even x"
  by (auto simp: round_half_even_def Let_def)

lemma round_at_nonneg:
  assumes "0 \<le> a"
  shows "0 \<le> round_at e a"
proof -
  have "0 \<le> a / power_int 2 (e - 52)"
    using assms by simp
  then have "0 \<le> round_half_even (a / power_int 2 (e - 52))"
    by (rule round_half_even_nonneg)
  then show ?thesis
    by (simp add: round_at_def)
qed

lemma round_to_double_sign:
  assumes "round_to_double x = Finite q"
  shows "(0 \<le> x \<longrightarrow> 0 \<le> q) \<and> (x \<le> 0 \<longrightarrow> q \<le> 0)"
proof (cases "x = 0")
  case True
  with assms show ?thesis by (simp add: round_to_double_def)
next
  case False
  have "0 \<le> round_at (double_exponent \<bar>x\<bar>) \<bar>x\<bar>"
    by (rule round_at_nonneg) simp
  with assms False show ?thesis
    by (auto simp: round_to_double_def Let_def split: if_splits)
qed

lemma round_to_double_cases:
  "(0 \<le> x \<longrightarrow> round_to_double x \<noteq> NegInf) \<and> (x \<le> 0 \<longrightarrow> round_to_double x \<noteq> PosInf)
   \<and> round_to_double x \<noteq> NaN"
  by (auto simp: round_to_double_def Let_def)

lemma ilog2_up_lower:
  "1 \<le> a \<Longrightarrow> 0 \<le> ilog2_up a \<and> power_int 2 (ilog2_up a) \<le> a"
proof (induction a rule: ilog2_up.induct)
  case (1 a)
  show ?case
  proof (cases "a < 2")
    case True
    then have "ilog2_up a = 0" by (subst ilog2_up.simps) simp
    with "1.prems" show ?thesis by simp
  next
    case False
    then have e: "ilog2_up a = 1 + ilog2_up (a / 2)" by (subst ilog2_up.simps) simp
    have "1 \<le> a / 2" using False by simp
    with "1.IH" False have ih: "0 \<le> ilog2_up (a / 2)" "power_int 2 (ilog2_up (a / 2)) \<le> a / 2"
      by simp_all
    have "power_int (2::rat) (1 + ilog2_up (a / 2)) = 2 * power_int 2 (ilog2_up (a / 2))"
      by (simp add: power_int_add)
    with ih e show ?thesis by simp
  qed
qed

lemma ilog2_down_nonpos:
  "ilog2_down a \<le> 0"
proof (induction a rule: ilog2_down.induct)
  case (1 a)
  show ?case
  proof (cases "a \<le> 0 \<or> 1 \<le> a")
    case True
    then show ?thesis by (subst ilog2_down.simps) simp
  next
    case False
    then have "ilog2_down a = ilog2_down (2 * a) - 1"
      by (subst ilog2_down.simps) simp
    with "1.IH" False show ?thesis by simp
  qed
qed

lemma float_of_int_zero:
  "float_of_int 0 = Inr (Finite 0)"
  by (simp add: float_of_int_def round_to_double_def)

lemma round_half_even_ge_int:
  "of_int z \<le> x \<Longrightarrow> z \<le> round_half_even x"
proof -
  assume "of_int z \<le> x"
  then have "z \<le> \<lfloor>x\<rfloor>" by (simp only: le_floor_iff)
  moreover have "\<lfloor>x\<rfloor> \<le> round_half_even x"
    by (simp add: round_half_even_def Let_def)
  ultimately show ?thesis by simp
qed

lemma round_half_even_le_int:
  assumes "x \<le> of_int z"
  shows "round_half_even x \<le> z"
proof (cases "x = of_int z")
  case True
  then show ?thesis by (simp add: round_half_even_def Let_def)
next
  case False
  with assms have "x < of_int z" by simp
  then have "\<lfloor>x\<rfloor> < z" by (simp only: floor_less_iff)
  moreover have "round_half_even x \<le> \<lfloor>x\<rfloor> + 1"
    by (simp add: round_half_even_def Let_def)
  ultimately show ?thesis by simp
qed

text \<open>A unit in the last place \<open>2^(e - 52)\<close> with \<open>e \<le> 52\<close> divides every integer.\<close>

lemma ulp_small:
  assumes "e \<le> 52"
  shows "power_int (2::rat) (e - 52) = 1 / 2 ^ nat (52 - e)"
proof -
  have "e - 52 = - int (nat (52 - e))" using assms by simp
  then have "power_int (2::rat) (e - 52) = power_int 2 (- int (nat (52 - e)))" by simp
  also have "\<dots> = 1 / 2 ^ nat (52 - e)"
    by (simp only: power_int_minus_divide power_int_of_nat)
  finally show ?thesis .
qed

lemma round_at_ge_int:
  assumes "e \<le> 52" "of_int m \<le> a"
  shows "of_int m \<le> round_at e a"
proof -
  let ?k = "nat (52 - e)"
  have u: "power_int (2::rat) (e - 52) = 1 / 2 ^ ?k" using assms(1) by (rule ulp_small)
  have "(of_int (m * 2 ^ ?k) :: rat) = of_int m * 2 ^ ?k" by simp
  also have "\<dots> \<le> a * 2 ^ ?k" using assms(2) by simp
  finally have "m * 2 ^ ?k \<le> round_half_even (a * 2 ^ ?k)"
    by (rule round_half_even_ge_int)
  then have "(of_int (m * 2 ^ ?k) :: rat) \<le> of_int (round_half_even (a * 2 ^ ?k))"
    by (simp only: of_int_le_iff)
  then have "of_int m * 2 ^ ?k \<le> (of_int (round_half_even (a * 2 ^ ?k)) :: rat)"
    by simp
  then have "of_int m \<le> (of_int (round_half_even (a * 2 ^ ?k)) :: rat) / 2 ^ ?k"
    by (simp add: pos_le_divide_eq)
  then show ?thesis by (simp add: round_at_def u)
qed

lemma round_at_le_int:
  assumes "e \<le> 52" "a \<le> of_int m"
  shows "round_at e a \<le> of_int m"
proof -
  let ?k = "nat (52 - e)"
  have u: "power_int (2::rat) (e - 52) = 1 / 2 ^ ?k" using assms(1) by (rule ulp_small)
  have "a * 2 ^ ?k \<le> of_int m * 2 ^ ?k" using assms(2) by simp
  also have "\<dots> = (of_int (m * 2 ^ ?k) :: rat)" by simp
  finally have "round_half_even (a * 2 ^ ?k) \<le> m * 2 ^ ?k"
    by (rule round_half_even_le_int)
  then have "(of_int (round_half_even (a * 2 ^ ?k)) :: rat) \<le> of_int (m * 2 ^ ?k)"
    by (simp only: of_int_le_iff)
  then have "(of_int (round_half_even (a * 2 ^ ?k)) :: rat) \<le> of_int m * 2 ^ ?k"
    by simp
  then have "(of_int (round_half_even (a * 2 ^ ?k)) :: rat) / 2 ^ ?k \<le> of_int m"
    by (simp add: pos_divide_le_eq)
  then show ?thesis by (simp add: round_at_def u)
qed

text \<open>The rounded value does not fall below the power of two at or below the number.\<close>

lemma round_at_ge_power:
  assumes "power_int 2 e \<le> a"
  shows "power_int 2 e \<le> round_at e a"
proof -
  let ?u = "power_int (2::rat) (e - 52)"
  have u: "0 < ?u" by simp
  have p: "power_int (2::rat) e = 2 ^ 52 * ?u"
    using power_int_add[of "2::rat" 52 "e - 52"] by simp
  then have "(of_int (2 ^ 52) :: rat) = power_int 2 e / ?u" using u by simp
  also have "\<dots> \<le> a / ?u" using assms u by (simp add: divide_right_mono)
  finally have "2 ^ 52 \<le> round_half_even (a / ?u)"
    by (rule round_half_even_ge_int)
  then have "(of_int (2 ^ 52) :: rat) \<le> of_int (round_half_even (a / ?u))"
    by (simp only: of_int_le_iff)
  then have "2 ^ 52 * ?u \<le> of_int (round_half_even (a / ?u)) * ?u"
    using u by simp
  with p show ?thesis by (simp add: round_at_def)
qed

lemma double_exponent_ge_one:
  assumes "1 \<le> a"
  shows "power_int 2 (double_exponent a) \<le> a"
proof -
  have l: "0 \<le> ilog2_up a" "power_int 2 (ilog2_up a) \<le> a"
    using ilog2_up_lower[OF assms] by simp_all
  have "double_exponent a = ilog2_up a"
    using assms l(1) by (simp add: double_exponent_def ilog2_def)
  with l(2) show ?thesis by (simp only:)
qed

lemma double_exponent_below_one:
  assumes "a < 1"
  shows "double_exponent a \<le> 0"
  using assms ilog2_down_nonpos[of a] by (simp add: double_exponent_def ilog2_def)

lemma double_exponent_small:
  assumes "0 < a" "a < 2 ^ 53"
  shows "double_exponent a \<le> 52"
proof (cases "1 \<le> a")
  case True
  then have l: "power_int 2 (double_exponent a) \<le> a"
    by (rule double_exponent_ge_one)
  show ?thesis
  proof (rule ccontr)
    assume "\<not> double_exponent a \<le> 52"
    then have "53 \<le> double_exponent a" by simp
    then have "power_int (2::rat) 53 \<le> power_int 2 (double_exponent a)"
      by (intro power_int_increasing) simp_all
    with l assms(2) show False by simp
  qed
next
  case False
  then have "double_exponent a \<le> 0" by (intro double_exponent_below_one) simp
  then show ?thesis by simp
qed

text \<open>
  Rounding is monotone against the integers up to \<open>2^53\<close>, which are doubles: a number
  at or above such an integer is rounded to a double at or above it, and a number at or
  below it to a double at or below it.
\<close>

lemma round_to_double_ge_int:
  assumes "1 \<le> m" "m \<le> 2 ^ 53" "of_int m \<le> a" "round_to_double a = Finite r"
  shows "of_int m \<le> r"
proof -
  have m1: "(1::rat) \<le> of_int m" using assms(1) by simp
  with assms(3) have pos: "0 < a" "1 \<le> a" by simp_all
  let ?e = "double_exponent a"
  have r: "r = round_at ?e a"
    using assms(4) pos by (simp add: round_to_double_def Let_def split: if_splits)
  show ?thesis
  proof (cases "?e \<le> 52")
    case True
    then show ?thesis unfolding r using assms(3) by (rule round_at_ge_int)
  next
    case False
    then have "53 \<le> ?e" by simp
    then have "power_int (2::rat) 53 \<le> power_int 2 ?e"
      by (intro power_int_increasing) simp_all
    moreover have "power_int 2 ?e \<le> round_at ?e a"
      using pos(2) by (intro round_at_ge_power double_exponent_ge_one)
    moreover have "(of_int m :: rat) \<le> of_int (2 ^ 53)"
      using assms(2) by (simp only: of_int_le_iff)
    ultimately show ?thesis unfolding r by simp
  qed
qed

lemma round_to_double_le_int:
  assumes "m < 2 ^ 53" "0 \<le> a" "a \<le> of_int m"
  shows "\<exists>r. round_to_double a = Finite r \<and> r \<le> of_int m"
proof (cases "a = 0")
  case True
  with assms show ?thesis by (simp add: round_to_double_def)
next
  case False
  with assms(2) have pos: "0 < a" by simp
  have "(of_int m :: rat) < of_int (2 ^ 53)" using assms(1) by (simp only: of_int_less_iff)
  with assms(3) have lt: "a < 2 ^ 53" by simp
  let ?e = "double_exponent a"
  have "?e \<le> 52" using pos lt by (rule double_exponent_small)
  then have le: "round_at ?e a \<le> of_int m" using assms(3) by (rule round_at_le_int)
  also have "(of_int m :: rat) < 2 ^ 53" using \<open>(of_int m :: rat) < of_int (2 ^ 53)\<close> by simp
  also have "(2::rat) ^ 53 \<le> power_int 2 1024" by simp
  finally have "\<not> power_int 2 1024 \<le> round_at ?e a" by simp
  with pos le show ?thesis by (simp add: round_to_double_def Let_def)
qed

text \<open>The number of rows of a dataset of fewer than \<open>2^53\<close> rows is exact as a float.\<close>

lemma float_of_int_exact:
  assumes "0 \<le> n" "n < 2 ^ 53"
  shows "float_of_int n = Inr (Finite (of_int n))"
proof (cases "n = 0")
  case True
  then show ?thesis by (simp add: float_of_int_zero)
next
  case False
  with assms(1) have n1: "1 \<le> n" by simp
  obtain r where r: "round_to_double (of_int n) = Finite r" "r \<le> of_int n"
    using round_to_double_le_int[of n "of_int n"] assms by auto
  have "of_int n \<le> r"
    using n1 _ _ r(1) by (rule round_to_double_ge_int) (use assms(2) in simp_all)
  with r show ?thesis by (simp add: float_of_int_def)
qed

text \<open>Evaluating the rounding of a positive number whose exponent is known.\<close>

lemma round_to_doubleI:
  assumes "0 < x" "double_exponent x = e" "round_at e x = r" "r < 2 ^ 1024"
  shows "round_to_double x = Finite r"
  using assms by (simp add: round_to_double_def Let_def)

lemma round_to_double_minus:
  assumes "0 < x" "round_to_double x = Finite r"
  shows "round_to_double (- x) = Finite (- r)"
  using assms by (simp add: round_to_double_def Let_def split: if_splits)

subsection \<open>The doubles of the runs below\<close>

text \<open>
  Each number is rounded at its exponent. The Python literals \<^verbatim>\<open>0.001\<close> and
  \<^verbatim>\<open>0.005\<close> are the doubles \<open>1152921504606847 / 2^60\<close> and
  \<open>5764607523034235 / 2^60\<close>.
\<close>

lemmas eval_double =
  double_exponent_def ilog2_def ilog2_up.simps ilog2_down.simps round_at_def
  round_half_even_def Let_def floor_rat_numeral_div

lemma double_0:
  "round_to_double 0 = Finite 0"
  by (simp add: round_to_double_def)

lemma double_1:
  "round_to_double (1) = Finite (1)"
  by (rule round_to_doubleI [where e = "0"]) (simp_all add: eval_double)

lemma double_2:
  "round_to_double (2) = Finite (2)"
  by (rule round_to_doubleI [where e = "1"]) (simp_all add: eval_double)

lemma double_3:
  "round_to_double (3) = Finite (3)"
  by (rule round_to_doubleI [where e = "1"]) (simp_all add: eval_double)

lemma double_3_2:
  "round_to_double (3 / 2) = Finite (3 / 2)"
  by (rule round_to_doubleI [where e = "0"]) (simp_all add: eval_double)

lemma double_4_3:
  "round_to_double (4 / 3) = Finite (6004799503160661 / 4503599627370496)"
  by (rule round_to_doubleI [where e = "0"]) (simp_all add: eval_double)

lemma double_2_3:
  "round_to_double (2 / 3) = Finite (6004799503160661 / 9007199254740992)"
  by (rule round_to_doubleI [where e = "- 1"]) (simp_all add: eval_double)

lemma double_500000:
  "round_to_double (500000) = Finite (500000)"
  by (rule round_to_doubleI [where e = "18"]) (simp_all add: eval_double)

lemma double_chars:
  "round_to_double (19560538957) = Finite (19560538957)"
  by (rule round_to_doubleI [where e = "34"]) (simp_all add: eval_double)

lemma double_chars_2:
  "round_to_double (19560538957 / 2) = Finite (19560538957 / 2)"
  by (rule round_to_doubleI [where e = "33"]) (simp_all add: eval_double)

lemma double_50000:
  "round_to_double (50000) = Finite (50000)"
  by (rule round_to_doubleI [where e = "15"]) (simp_all add: eval_double)

lemma double_5000:
  "round_to_double (5000) = Finite (5000)"
  by (rule round_to_doubleI [where e = "12"]) (simp_all add: eval_double)

lemma double_lit_001:
  "round_to_double (1 / 1000) = Finite (1152921504606847 / 1152921504606846976)"
  by (rule round_to_doubleI [where e = "- 10"]) (simp_all add: eval_double)

lemma double_lit_005:
  "round_to_double (1 / 200) = Finite (5764607523034235 / 1152921504606846976)"
  by (rule round_to_doubleI [where e = "- 8"]) (simp_all add: eval_double)

lemma double_10_by_001:
  "round_to_double (11529215046068469760 / 1152921504606847) = Finite (10000)"
  by (rule round_to_doubleI [where e = "13"]) (simp_all add: eval_double)

lemma double_5_by_005:
  "round_to_double (1152921504606846976 / 1152921504606847) = Finite (1000)"
  by (rule round_to_doubleI [where e = "9"]) (simp_all add: eval_double)

lemma double_chars_5000:
  "round_to_double (19560538957 / 5000) = Finite (8401187511244895 / 2147483648)"
  by (rule round_to_doubleI [where e = "21"]) (simp_all add: eval_double)

lemma double_frac_us:
  "round_to_double (26554977484375 / 33554432) = Finite (26554977484375 / 33554432)"
  by (rule round_to_doubleI [where e = "19"]) (simp_all add: eval_double)

lemma double_1_2:
  "round_to_double (1 / 2) = Finite (1 / 2)"
  by (rule round_to_doubleI [where e = "- 1"]) (simp_all add: eval_double)

lemma double_neg_1_2:
  "round_to_double (- (1 / 2)) = Finite (- (1 / 2))"
  using round_to_double_minus[OF _ double_1_2] by simp

lemma double_neg_2:
  "round_to_double (- 2) = Finite (- 2)"
  using round_to_double_minus[OF _ double_2] by simp

lemma double_10:
  "round_to_double 10 = Finite 10"
  by (rule round_to_doubleI [where e = "3"]) (simp_all add: eval_double)

lemma double_50000_by_01:
  "round_to_double (1801439850948198400000 / 3602879701896397) = Finite 500000"
  by (rule round_to_doubleI [where e = "18"]) (simp_all add: eval_double)

lemma double_10_by_03:
  "round_to_double (27021597764222975 / 9007199254740992) = Finite 3"
  by (rule round_to_doubleI [where e = "1"]) (simp_all add: eval_double)

lemma double_chars_9:
  "round_to_double (19560538957 / 9) = Finite (1139483983187513 / 524288)"
  by (rule round_to_doubleI [where e = "31"]) (simp_all add: eval_double)

lemma double_frac_us_9:
  "round_to_double (3640890625 / 8192) = Finite (3640890625 / 8192)"
  by (rule round_to_doubleI [where e = "18"]) (simp_all add: eval_double)

text \<open>A product beyond the largest double is an infinity.\<close>

lemma round_to_double_overflow:
  assumes "0 < x" "double_exponent x = e" "2 ^ 1024 \<le> round_at e x"
  shows "round_to_double (- x) = NegInf"
  using assms by (simp add: round_to_double_def Let_def)

lemma double_neg_overflow:
  "round_to_double (- (2 ^ 1024)) = NegInf"
  by (rule round_to_double_overflow [where e = "1024"]) (simp_all add: eval_double)

subsection \<open>Throughput statistics and the run\<close>

lemma run_statistics_Inr:
  assumes "run_statistics counter duration down_scale = Inr d"
  shows "\<exists>c q cps x ext td tps td_tps.
           float_of_int counter = Inr c
         \<and> float_truediv c duration = Inr q
         \<and> py_int q = Inr cps
         \<and> float_truediv duration down_scale = Inr x
         \<and> py_int x = Inr ext
         \<and> timedelta_of_int ext = Inr td
         \<and> int_truediv dataset_chars cps = Inr tps
         \<and> timedelta_of_float tps = Inr td_tps
         \<and> d = [(''downscale'', PyFloat down_scale),
                 (''n_gpu'', PyInt N_GPU),
                 (''duration'', PyFloat duration),
                 (''characters_per_second'', PyInt cps),
                 (''extrapolated_duration'', PyInt ext),
                 (''extrapolated_duration_fmt'', PyStr (timedelta_str td)),
                 (''extrapolated_duration_tps_fmt'', PyStr (timedelta_str td_tps))]"
  using assms
  by (auto simp: run_statistics_def Let_def split: sum.splits)

lemma embed_dataset_Inr:
  assumes "snd (embed_dataset server dataset down_scale duration) = Inr d"
  shows "\<exists>counter. run_statistics counter duration down_scale = Inr d"
  using assms
  by (auto simp: embed_dataset_def Let_def split: sum.splits)

lemma embed_dataset_batches:
  assumes "fst (embed_dataset server dataset down_scale duration) = Some batches"
  shows "\<exists>chunks. batches = generate_batches chunks BATCH_SIZE"
  using assms
  by (auto simp: embed_dataset_def Let_def split: sum.splits)

lemma py_int_Finite:
  "py_int q = Inr k \<Longrightarrow> \<exists>a. q = Finite a \<and> k = py_trunc a"
  by (cases q) (simp_all add: py_int_def)

lemma float_div_zero_dividend:
  assumes "float_truediv (Finite 0) duration = Inr q" "py_int q = Inr cps"
  shows "cps = 0"
proof -
  have q: "q = float_div (Finite 0) duration" and nz: "duration \<noteq> Finite 0"
    using assms(1) by (auto simp: float_truediv_def split: if_splits)
  show ?thesis
  proof (cases duration)
    case (Finite b)
    with q have "q = Finite 0" by (simp add: round_to_double_def)
    with assms(2) show ?thesis by (simp add: py_int_def py_trunc_def)
  next
    case PosInf
    with q assms(2) show ?thesis by (simp add: py_int_def py_trunc_def)
  next
    case NegInf
    with q assms(2) show ?thesis by (simp add: py_int_def py_trunc_def)
  next
    case NaN
    with q assms(2) show ?thesis by (simp add: py_int_def)
  qed
qed

lemma run_statistics_zero_counter:
  "\<exists>e. run_statistics 0 duration down_scale = Inl e"
proof (cases "run_statistics 0 duration down_scale")
  case (Inl e)
  then show ?thesis by blast
next
  case (Inr d)
  from run_statistics_Inr[OF Inr] obtain q cps tps where
    "float_truediv (Finite 0) duration = Inr q" "py_int q = Inr cps"
    "int_truediv dataset_chars cps = Inr tps"
    by (auto simp: float_of_int_zero)
  then show ?thesis
    using float_div_zero_dividend[of duration q cps] by (simp add: int_truediv_def)
qed

lemma run_statistics_zero_scale:
  "run_statistics 0 (Finite t) (Finite 0) = Inl ZeroDivisionError"
proof (cases "t = 0")
  case True
  then show ?thesis
    by (simp add: run_statistics_def float_of_int_zero float_truediv_def)
next
  case False
  then show ?thesis
    by (simp add: run_statistics_def float_of_int_zero float_truediv_def round_to_double_def
        py_int_def py_trunc_def)
qed

lemma range_up_unit_set:
  "set (range_up i s 1) = {i..<s}"
proof (induction i s "1::int" rule: range_up.induct)
  case (1 i stop)
  show ?case
  proof (cases "i < stop")
    case True
    then have "range_up i stop 1 = i # range_up (i + 1) stop 1"
      by (simp add: range_up_step)
    with "1.hyps" True show ?thesis by auto
  next
    case False
    then show ?thesis by (simp add: range_up_stop)
  qed
qed

lemma select_rows_range:
  "(\<exists>rows. select_rows dataset (range_up 0 k 1) = Inr rows) \<longleftrightarrow> k \<le> int (length dataset)"
proof -
  have "list_all (\<lambda>i. 0 \<le> i \<and> i < int (length dataset)) (range_up 0 k 1)
        \<longleftrightarrow> (\<forall>i \<in> {0..<k}. i < int (length dataset))"
    by (auto simp: list_all_iff range_up_unit_set)
  also have "\<dots> \<longleftrightarrow> k \<le> int (length dataset)"
  proof
    assume a: "\<forall>i \<in> {0..<k}. i < int (length dataset)"
    show "k \<le> int (length dataset)"
    proof (rule ccontr)
      assume "\<not> k \<le> int (length dataset)"
      then have "int (length dataset) \<in> {0..<k}" by simp
      with a show False by blast
    qed
  next
    assume "k \<le> int (length dataset)"
    then show "\<forall>i \<in> {0..<k}. i < int (length dataset)" by simp
  qed
  finally show ?thesis by (auto simp: select_rows_def)
qed

lemma embed_dataset_sample_error:
  "sample_size dataset down_scale = Inl e
   \<Longrightarrow> embed_dataset server dataset down_scale duration = (None, Inl e)"
  by (simp add: embed_dataset_def)

lemma embed_dataset_index_error:
  assumes "sample_size dataset down_scale = Inr k" "int (length dataset) < k"
  shows "embed_dataset server dataset down_scale duration = (None, Inl IndexError)"
proof -
  have "\<not> (\<exists>rows. select_rows dataset (range_up 0 k 1) = Inr rows)"
    using assms(2) by (simp add: select_rows_range)
  then have "select_rows dataset (range_up 0 k 1) = Inl IndexError"
    by (auto simp: select_rows_def split: if_splits)
  with assms(1) show ?thesis
    by (simp add: embed_dataset_def py_range_def)
qed

lemma embed_dataset_dispatches:
  assumes "sample_size dataset down_scale = Inr k" "k \<le> int (length dataset)"
  shows "\<exists>batches. fst (embed_dataset server dataset down_scale duration) = Some batches"
proof -
  obtain rows where r: "select_rows dataset (range_up 0 k 1) = Inr rows"
    using assms(2) select_rows_range[of dataset k] by blast
  obtain chunks where c: "generate_chunks_from_dataset rows 400 = Inr chunks"
    using generate_chunks_total[of 400 rows] by auto
  show ?thesis
    using assms(1) r c
    by (simp add: embed_dataset_def py_range_def Let_def split: sum.splits)
qed

lemma run_no_rows:
  assumes "sample_size dataset down_scale = Inr k" "k \<le> 0"
  shows "embed_dataset server dataset down_scale duration
         = (Some [], run_statistics 0 duration down_scale)"
proof -
  have "range_up 0 k 1 = []" using assms(2) by (simp add: range_up_stop)
  with assms(1) show ?thesis
    by (simp add: embed_dataset_def py_range_def select_rows_def generate_batches_def)
qed

lemma run_one_row:
  assumes "sample_size [\<lparr>row_text = ''ab''\<rparr>] down_scale = Inr 1"
  shows "embed_dataset (\<lambda>ts. Inr ()) [\<lparr>row_text = ''ab''\<rparr>] down_scale duration
         = (Some [[''ab'']], run_statistics 2 duration down_scale)"
  using assms
  by (simp add: embed_dataset_def Let_def py_range_def range_up.simps select_rows_def
      record_chunks_def slice_def slice_bound_def generate_batches_def BATCH_SIZE_def embed_def)

text \<open>The sample size, by the range of the scale.\<close>

lemma length_as_int:
  assumes "length dataset < 2 ^ 53"
  shows "0 \<le> int (length dataset)" "int (length dataset) < 2 ^ 53"
  using assms by (simp, metis of_nat_less_iff of_nat_numeral of_nat_power)

lemma sample_size_zero_scale:
  assumes "length dataset < 2 ^ 53"
  shows "sample_size dataset (Finite 0) = Inr 0"
proof -
  have "float_of_int (int (length dataset)) = Inr (Finite (of_int (int (length dataset))))"
    using length_as_int[OF assms] by (intro float_of_int_exact) simp_all
  then show ?thesis
    by (simp add: sample_size_def round_to_double_def py_int_def py_trunc_def)
qed

lemma sample_size_negative_scale:
  assumes "length dataset < 2 ^ 53" "s < 0"
  shows "sample_size dataset (Finite s) = Inl OverflowError
       \<or> (\<exists>k. sample_size dataset (Finite s) = Inr k \<and> k \<le> 0)"
proof -
  let ?n = "int (length dataset)"
  have q: "float_of_int ?n = Inr (Finite (of_int ?n))"
    using length_as_int[OF assms(1)] by (intro float_of_int_exact) simp_all
  have np: "(of_int ?n :: rat) * s \<le> 0" using assms(2) by (simp add: mult_nonneg_nonpos)
  show ?thesis
  proof (cases "round_to_double (of_int ?n * s)")
    case (Finite p)
    then have "p \<le> 0" using round_to_double_sign[of "of_int ?n * s" p] np by simp
    then have "py_trunc p \<le> 0"
      by (auto simp: py_trunc_def ceiling_le_zero floor_le_zero intro: order_trans)
    with Finite q show ?thesis
      by (simp add: sample_size_def py_int_def)
  next
    case PosInf
    with np show ?thesis using round_to_double_cases[of "of_int ?n * s"] by simp
  next
    case NegInf
    with q show ?thesis by (simp add: sample_size_def py_int_def)
  next
    case NaN
    then show ?thesis using round_to_double_cases[of "of_int ?n * s"] by simp
  qed
qed

lemma sample_size_above:
  assumes "length dataset < 2 ^ 53"
    and "of_nat (length dataset) + 1 \<le> of_nat (length dataset) * s"
  shows "sample_size dataset (Finite s) = Inl OverflowError
       \<or> (\<exists>k. sample_size dataset (Finite s) = Inr k \<and> int (length dataset) < k)"
proof -
  let ?n = "int (length dataset)"
  have n: "0 \<le> ?n" "?n < 2 ^ 53"
    using assms(1) by (simp, metis of_nat_less_iff of_nat_numeral of_nat_power)
  then have q: "float_of_int ?n = Inr (Finite (of_int ?n))" by (rule float_of_int_exact)
  have x: "of_int (?n + 1) \<le> (of_int ?n :: rat) * s" using assms(2) by simp
  show ?thesis
  proof (cases "round_to_double (of_int ?n * s)")
    case (Finite p)
    have "of_int (?n + 1) \<le> p"
    proof (rule round_to_double_ge_int[OF _ _ x Finite])
      show "1 \<le> ?n + 1" by simp
      show "?n + 1 \<le> 2 ^ 53" using n(2) by simp
    qed
    then have "?n + 1 \<le> \<lfloor>p\<rfloor>" by (simp only: le_floor_iff)
    moreover have "\<not> p < 0" using \<open>of_int (?n + 1) \<le> p\<close> by simp
    ultimately have "?n < py_trunc p" by (simp add: py_trunc_def)
    with Finite q show ?thesis by (simp add: sample_size_def py_int_def)
  next
    case PosInf
    with q show ?thesis by (simp add: sample_size_def py_int_def)
  next
    case NegInf
    with q show ?thesis by (simp add: sample_size_def py_int_def)
  next
    case NaN
    then show ?thesis using round_to_double_cases[of "of_int ?n * s"] by simp
  qed
qed

lemma sample_size_within:
  assumes "length dataset < 2 ^ 53" "0 \<le> s" "s \<le> 1"
  shows "\<exists>k. sample_size dataset (Finite s) = Inr k \<and> 0 \<le> k \<and> k \<le> int (length dataset)"
proof -
  let ?n = "int (length dataset)"
  have n: "0 \<le> ?n" "?n < 2 ^ 53"
    using assms(1) by (simp, metis of_nat_less_iff of_nat_numeral of_nat_power)
  then have q: "float_of_int ?n = Inr (Finite (of_int ?n))" by (rule float_of_int_exact)
  have "(of_int ?n :: rat) * s \<le> of_int ?n * 1"
    using assms(3) by (intro mult_left_mono) simp_all
  then have "(of_int ?n :: rat) * s \<le> of_int ?n" by simp
  moreover have "0 \<le> (of_int ?n :: rat) * s" using assms(2) by simp
  ultimately obtain p where p: "round_to_double (of_int ?n * s) = Finite p" "p \<le> of_int ?n"
    using round_to_double_le_int[OF n(2), of "of_int ?n * s"] by blast
  have p0: "0 \<le> p"
    using round_to_double_sign[OF p(1)] \<open>0 \<le> (of_int ?n :: rat) * s\<close> by simp
  then have "py_trunc p = \<lfloor>p\<rfloor>" by (simp add: py_trunc_def)
  moreover have "\<lfloor>p\<rfloor> \<le> ?n" using p(2) by (simp add: floor_le_iff)
  moreover have "0 \<le> \<lfloor>p\<rfloor>" using p0 by simp
  ultimately show ?thesis using p(1) q by (simp add: sample_size_def py_int_def)
qed

lemma sample_size_not_finite:
  assumes "length dataset < 2 ^ 53" "\<forall>s. down_scale \<noteq> Finite s"
  shows "\<exists>e. sample_size dataset down_scale = Inl e"
proof -
  have q: "float_of_int (int (length dataset)) = Inr (Finite (of_int (int (length dataset))))"
    using length_as_int[OF assms(1)] by (intro float_of_int_exact) simp_all
  show ?thesis
    using assms(2) q by (cases down_scale) (simp_all add: sample_size_def py_int_def)
qed

text \<open>The equations that evaluate the statistics of a concrete run.\<close>

lemmas eval_stats =
  run_statistics_def float_of_int_def float_truediv_def int_truediv_def py_int_def py_trunc_def
  timedelta_of_int_def timedelta_of_float_def timedelta_of_microseconds_def round_half_even_def
  Let_def timedelta_str_def str_int_def zero_pad_def N_GPU_def dataset_chars_def str_nat.simps
  floor_rat_numeral_div
  double_0 double_1 double_2 double_3 double_3_2 double_4_3 double_2_3 double_500000 double_chars
  double_chars_2 double_50000 double_5000 double_10_by_001 double_5_by_005 double_chars_5000
  double_frac_us

lemma sample_one_row:
  "sample_size [r] (Finite 1) = Inr 1"
  "sample_size [r] (Finite (3 / 2)) = Inr 1"
  "sample_size [r] (Finite 2) = Inr 2"
  "sample_size [r, r'] (Finite (3 / 2)) = Inr 3"
  by (simp_all add: sample_size_def eval_stats)

lemma stats_1_1:
  "run_statistics 2 (Finite 1) (Finite 1)
   = Inr [(''downscale'', PyFloat (Finite 1)), (''n_gpu'', PyInt 6),
          (''duration'', PyFloat (Finite 1)), (''characters_per_second'', PyInt 2),
          (''extrapolated_duration'', PyInt 1),
          (''extrapolated_duration_fmt'', PyStr ''0:00:01''),
          (''extrapolated_duration_tps_fmt'', PyStr ''113197 days, 13:31:18.500000'')]"
  by (simp add: eval_stats)

lemma stats_2_1:
  "run_statistics 2 (Finite 2) (Finite 1)
   = Inr [(''downscale'', PyFloat (Finite 1)), (''n_gpu'', PyInt 6),
          (''duration'', PyFloat (Finite 2)), (''characters_per_second'', PyInt 1),
          (''extrapolated_duration'', PyInt 2),
          (''extrapolated_duration_fmt'', PyStr ''0:00:02''),
          (''extrapolated_duration_tps_fmt'', PyStr ''226395 days, 3:02:37'')]"
  by (simp add: eval_stats)

lemma stats_3_2_1:
  "run_statistics 2 (Finite (3 / 2)) (Finite 1)
   = Inr [(''downscale'', PyFloat (Finite 1)), (''n_gpu'', PyInt 6),
          (''duration'', PyFloat (Finite (3 / 2))), (''characters_per_second'', PyInt 1),
          (''extrapolated_duration'', PyInt 1),
          (''extrapolated_duration_fmt'', PyStr ''0:00:01''),
          (''extrapolated_duration_tps_fmt'', PyStr ''226395 days, 3:02:37'')]"
  by (simp add: eval_stats)

lemma stats_1_3_2:
  "run_statistics 2 (Finite 1) (Finite (3 / 2))
   = Inr [(''downscale'', PyFloat (Finite (3 / 2))), (''n_gpu'', PyInt 6),
          (''duration'', PyFloat (Finite 1)), (''characters_per_second'', PyInt 2),
          (''extrapolated_duration'', PyInt 0),
          (''extrapolated_duration_fmt'', PyStr ''0:00:00''),
          (''extrapolated_duration_tps_fmt'', PyStr ''113197 days, 13:31:18.500000'')]"
  by (simp add: eval_stats)

text \<open>
  The Python literal \<^verbatim>\<open>0.001\<close> is the double \<open>1152921504606847 / 2^60\<close>
  (\<open>double_lit_001\<close>). With 50000 characters in 10 seconds at that scale:
\<close>

lemma stats_example:
  "run_statistics 50000 (Finite 10) (Finite (1152921504606847 / 1152921504606846976))
   = Inr [(''downscale'', PyFloat (Finite (1152921504606847 / 1152921504606846976))),
          (''n_gpu'', PyInt 6),
          (''duration'', PyFloat (Finite 10)), (''characters_per_second'', PyInt 5000),
          (''extrapolated_duration'', PyInt 10000),
          (''extrapolated_duration_fmt'', PyStr ''2:46:40''),
          (''extrapolated_duration_tps_fmt'', PyStr ''45 days, 6:41:47.791400'')]"
  by (simp add: eval_stats)

text \<open>
  The default scale of \<^verbatim>\<open>embed_dataset\<close>, the literal \<^verbatim>\<open>0.005\<close>, is the double
  \<open>5764607523034235 / 2^60\<close>, a little above \<open>1/200\<close>. The float quotient
  \<^verbatim>\<open>5.0 / 0.005\<close> is \<open>1000\<close>, where the exact quotient of the two doubles is below it.
\<close>

lemma float_quotient_default_scale:
  "float_truediv (Finite 5) (Finite (5764607523034235 / 1152921504606846976)) = Inr (Finite 1000)"
  "py_trunc (5 / (5764607523034235 / 1152921504606846976)) = 999"
  by (simp_all add: float_truediv_def double_5_by_005 py_trunc_def floor_rat_numeral_div)

text \<open>
  More float arithmetic that differs from exact arithmetic: \<^verbatim>\<open>int(50000 / 0.1)\<close> is
  500000 and \<^verbatim>\<open>int(10 * 0.3)\<close> is 3, where the exact quotient and product of the doubles
  truncate to 499999 and 2; \<^verbatim>\<open>str(timedelta(seconds=19560538957 / 9))\<close> ends in
  \<^verbatim>\<open>.444445\<close>.
\<close>

lemma float_arithmetic_examples:
  "float_truediv (Finite 50000) (Finite (3602879701896397 / 36028797018963968)) = Inr (Finite 500000)"
  "py_trunc (50000 / (3602879701896397 / 36028797018963968)) = 499999"
  "sample_size (replicate 10 r) (Finite (5404319552844595 / 18014398509481984)) = Inr 3"
  "py_trunc (10 * (5404319552844595 / 18014398509481984)) = 2"
  "int_truediv 19560538957 9 = Inr (Finite (1139483983187513 / 524288))"
  "map_sum id timedelta_str (timedelta_of_float (Finite (1139483983187513 / 524288)))
     = Inr ''25155 days, 0:20:17.444445''"
  by (simp_all add: sample_size_def eval_stats double_50000_by_01 double_10_by_03 double_10
      double_chars_9 double_frac_us_9)

lemma ceiling_minus_half:
  "\<lceil>- (1 / 2) :: rat\<rceil> = 0"
  by (rule ceiling_unique) simp_all

lemma sample_other_scales:
  "sample_size [r] (Finite (- (1 / 2))) = Inr 0"
  "sample_size [r] PosInf = Inl OverflowError"
  "sample_size [r] NaN = Inl ValueError"
  by (simp_all add: sample_size_def eval_stats float_sign_def double_neg_1_2 ceiling_minus_half)

lemma stats_negative_scale:
  "run_statistics 0 (Finite 1) (Finite (- (1 / 2))) = Inl ZeroDivisionError"
  by (simp add: eval_stats double_0 double_neg_2)

text \<open>Two rows at the scale \<open>-2^1023\<close>: the product is minus infinity.\<close>

lemma sample_overflow:
  "sample_size [r, r'] (Finite (- (2 ^ 1023))) = Inl OverflowError"
proof -
  have "2 * - (2 ^ 1023) = - (2 ^ 1024 :: rat)" by simp
  then have m: "float_mul (Finite 2) (Finite (- (2 ^ 1023))) = NegInf"
    by (simp only: float_mul.simps double_neg_overflow)
  have f: "float_of_int (int (length [r, r'])) = Inr (Finite 2)"
    by (simp add: float_of_int_def double_2)
  show ?thesis
    unfolding sample_size_def Let_def f
    by (simp only: sum.case m py_int_def pyfloat.case)
qed

subsection \<open>The scale of a run\<close>

text \<open>
  Claim C4, as stated, fails: nothing in \<^verbatim>\<open>embed_dataset\<close> checks \<^verbatim>\<open>down_scale\<close>.
  A run over a dataset of one row with \<^verbatim>\<open>down_scale = 1.5\<close> selects that row, dispatches
  its batch and returns its statistics; a run with \<^verbatim>\<open>down_scale = 0\<close> calls
  \<^verbatim>\<open>model.embed.map\<close>, with no batch, before it fails with \<open>ZeroDivisionError\<close>.
\<close>

theorem embed_dataset_scale_counterexample:
  "embed_dataset (\<lambda>ts. Inr ()) [\<lparr>row_text = ''ab''\<rparr>] (Finite (3 / 2)) (Finite 1) =
     (Some [[''ab'']],
      Inr [(''downscale'', PyFloat (Finite (3 / 2))), (''n_gpu'', PyInt 6),
           (''duration'', PyFloat (Finite 1)), (''characters_per_second'', PyInt 2),
           (''extrapolated_duration'', PyInt 0),
           (''extrapolated_duration_fmt'', PyStr ''0:00:00''),
           (''extrapolated_duration_tps_fmt'', PyStr ''113197 days, 13:31:18.500000'')])
   \<and> embed_dataset (\<lambda>ts. Inr ()) [\<lparr>row_text = ''ab''\<rparr>] (Finite 0) (Finite 1)
       = (Some [], Inl ZeroDivisionError)"
proof -
  have z: "sample_size [\<lparr>row_text = ''ab''\<rparr>] (Finite 0) = Inr 0"
    by (rule sample_size_zero_scale) simp
  show ?thesis
    using run_no_rows[OF z, of "\<lambda>ts. Inr ()" "Finite 1"]
    by (simp add: run_one_row sample_one_row stats_1_3_2 run_statistics_zero_scale)
qed

text \<open>
  Claim C4, amended. The run has no check of \<^verbatim>\<open>down_scale\<close> and no error of its own for
  it; what a scale outside \<open>(0, 1]\<close> does follows from
  \<^verbatim>\<open>sample_size = int(ttl_size * down_scale)\<close>. For a dataset of \<open>n < 2^53\<close> rows:
  \<^item> a scale in \<open>(0, 1]\<close> is never rejected: the run reaches the dispatch;
  \<^item> a scale \<open>s\<close> with \<open>n * s \<ge> n + 1\<close> ends the run before the dispatch, with
    \<open>IndexError\<close> from the selection of rows that do not exist, or \<open>OverflowError\<close> when
    the product is infinite; so does every scale from 2 on a dataset that is not empty, and
    every scale from 1.5 on a dataset of two rows or more;
  \<^item> a scale of zero selects no row, calls \<^verbatim>\<open>model.embed.map\<close> with no batch and fails
    afterwards with \<open>ZeroDivisionError\<close>;
  \<^item> a negative scale fails with \<open>OverflowError\<close> before the dispatch, or selects no
    row, calls \<^verbatim>\<open>model.embed.map\<close> with no batch and fails afterwards;
  \<^item> an infinite scale or not a number ends the run before the dispatch with the
    exception of \<^verbatim>\<open>int\<close>.
\<close>

theorem embed_dataset_scale:
  assumes "length dataset < 2 ^ 53"
  shows "(0 < s \<and> s \<le> 1
            \<longrightarrow> (\<exists>batches. fst (embed_dataset server dataset (Finite s) duration) = Some batches))
       \<and> (of_nat (length dataset) + 1 \<le> of_nat (length dataset) * s
            \<longrightarrow> embed_dataset server dataset (Finite s) duration = (None, Inl IndexError)
              \<or> embed_dataset server dataset (Finite s) duration = (None, Inl OverflowError))
       \<and> (2 \<le> s \<and> dataset \<noteq> []
            \<longrightarrow> fst (embed_dataset server dataset (Finite s) duration) = None)
       \<and> (3 / 2 \<le> s \<and> 2 \<le> length dataset
            \<longrightarrow> fst (embed_dataset server dataset (Finite s) duration) = None)
       \<and> embed_dataset server dataset (Finite 0) (Finite t) = (Some [], Inl ZeroDivisionError)
       \<and> (s < 0
            \<longrightarrow> embed_dataset server dataset (Finite s) duration = (None, Inl OverflowError)
              \<or> (\<exists>e. embed_dataset server dataset (Finite s) duration = (Some [], Inl e)))
       \<and> ((\<forall>x. down_scale \<noteq> Finite x)
            \<longrightarrow> (\<exists>e. embed_dataset server dataset down_scale duration = (None, Inl e)))"
proof -
  let ?n = "of_nat (length dataset) :: rat"
  have within: "\<exists>batches. fst (embed_dataset server dataset (Finite s) duration) = Some batches"
    if h: "0 < s \<and> s \<le> 1"
  proof -
    obtain k where "sample_size dataset (Finite s) = Inr k" "k \<le> int (length dataset)"
      using sample_size_within[OF assms, of s] h by auto
    then show ?thesis by (rule embed_dataset_dispatches)
  qed
  have above: "embed_dataset server dataset (Finite s) duration = (None, Inl IndexError)
       \<or> embed_dataset server dataset (Finite s) duration = (None, Inl OverflowError)"
    if h: "?n + 1 \<le> ?n * s" for s
  proof -
    consider "sample_size dataset (Finite s) = Inl OverflowError"
      | k where "sample_size dataset (Finite s) = Inr k" "int (length dataset) < k"
      using sample_size_above[OF assms h] by blast
    then show ?thesis
    proof cases
      case 1
      then show ?thesis by (simp add: embed_dataset_sample_error)
    next
      case 2
      then show ?thesis by (simp add: embed_dataset_index_error)
    qed
  qed
  have two: "fst (embed_dataset server dataset (Finite s) duration) = None"
    if h: "2 \<le> s \<and> dataset \<noteq> []"
  proof -
    have n1: "1 \<le> ?n" using h by (cases dataset) simp_all
    then have "?n * 2 \<le> ?n * s" using h by (intro mult_left_mono) simp_all
    with n1 have "?n + 1 \<le> ?n * s" by simp
    from above[OF this] show ?thesis by auto
  qed
  have half: "fst (embed_dataset server dataset (Finite s) duration) = None"
    if h: "3 / 2 \<le> s \<and> 2 \<le> length dataset"
  proof -
    have n2: "2 \<le> ?n" using h by simp
    then have "?n * (3 / 2) \<le> ?n * s" using h by (intro mult_left_mono) simp_all
    with n2 have "?n + 1 \<le> ?n * s" by simp
    from above[OF this] show ?thesis by auto
  qed
  have zero: "embed_dataset server dataset (Finite 0) (Finite t) = (Some [], Inl ZeroDivisionError)"
  proof -
    have "sample_size dataset (Finite 0) = Inr 0"
      using assms by (rule sample_size_zero_scale)
    then have "embed_dataset server dataset (Finite 0) (Finite t)
               = (Some [], run_statistics 0 (Finite t) (Finite 0))"
      by (rule run_no_rows) simp
    then show ?thesis by (simp add: run_statistics_zero_scale)
  qed
  have negative: "embed_dataset server dataset (Finite s) duration = (None, Inl OverflowError)
              \<or> (\<exists>e. embed_dataset server dataset (Finite s) duration = (Some [], Inl e))"
    if h: "s < 0"
  proof -
    consider "sample_size dataset (Finite s) = Inl OverflowError"
      | k where "sample_size dataset (Finite s) = Inr k" "k \<le> 0"
      using sample_size_negative_scale[OF assms h] by blast
    then show ?thesis
    proof cases
      case 1
      then show ?thesis by (simp add: embed_dataset_sample_error)
    next
      case 2
      then have "embed_dataset server dataset (Finite s) duration
                 = (Some [], run_statistics 0 duration (Finite s))"
        by (rule run_no_rows)
      then show ?thesis
        using run_statistics_zero_counter[of duration "Finite s"] by auto
    qed
  qed
  have other: "\<exists>e. embed_dataset server dataset down_scale duration = (None, Inl e)"
    if h: "\<forall>x. down_scale \<noteq> Finite x"
  proof -
    obtain e where "sample_size dataset down_scale = Inl e"
      using sample_size_not_finite[OF assms h] by blast
    then show ?thesis by (auto simp: embed_dataset_sample_error)
  qed
  from within above[of s] two half zero negative other show ?thesis by blast
qed

theorem embed_dataset_scale_witness:
  "fst (embed_dataset (\<lambda>ts. Inr ()) [\<lparr>row_text = ''ab''\<rparr>] (Finite 1) (Finite 1)) = Some [[''ab'']]
   \<and> embed_dataset (\<lambda>ts. Inr ()) [\<lparr>row_text = ''ab''\<rparr>, \<lparr>row_text = ''cd''\<rparr>] (Finite (3 / 2)) (Finite 1)
       = (None, Inl IndexError)
   \<and> embed_dataset (\<lambda>ts. Inr ()) [\<lparr>row_text = ''ab''\<rparr>] (Finite 2) (Finite 1)
       = (None, Inl IndexError)
   \<and> embed_dataset (\<lambda>ts. Inr ()) [\<lparr>row_text = ''ab''\<rparr>] (Finite 0) (Finite 1)
       = (Some [], Inl ZeroDivisionError)
   \<and> embed_dataset (\<lambda>ts. Inr ()) [\<lparr>row_text = ''ab''\<rparr>] (Finite (- (1 / 2))) (Finite 1)
       = (Some [], Inl ZeroDivisionError)
   \<and> embed_dataset (\<lambda>ts. Inr ()) [\<lparr>row_text = ''ab''\<rparr>, \<lparr>row_text = ''cd''\<rparr>]
         (Finite (- (2 ^ 1023))) (Finite 1)
       = (None, Inl OverflowError)
   \<and> embed_dataset (\<lambda>ts. Inr ()) [\<lparr>row_text = ''ab''\<rparr>] PosInf (Finite 1)
       = (None, Inl OverflowError)
   \<and> embed_dataset (\<lambda>ts. Inr ()) [\<lparr>row_text = ''ab''\<rparr>] NaN (Finite 1)
       = (None, Inl ValueError)"
proof -
  have f: "embed_dataset (\<lambda>ts. Inr ()) [\<lparr>row_text = ''ab''\<rparr>, \<lparr>row_text = ''cd''\<rparr>]
             (Finite (- (2 ^ 1023))) (Finite 1) = (None, Inl OverflowError)"
    by (rule embed_dataset_sample_error) (rule sample_overflow)
  have a: "fst (embed_dataset (\<lambda>ts. Inr ()) [\<lparr>row_text = ''ab''\<rparr>] (Finite 1) (Finite 1))
           = Some [[''ab'']]"
    by (simp add: run_one_row sample_one_row)
  have b: "embed_dataset (\<lambda>ts. Inr ()) [\<lparr>row_text = ''ab''\<rparr>, \<lparr>row_text = ''cd''\<rparr>]
             (Finite (3 / 2)) (Finite 1) = (None, Inl IndexError)"
    by (rule embed_dataset_index_error[where k = 3]) (simp_all add: sample_one_row)
  have c: "embed_dataset (\<lambda>ts. Inr ()) [\<lparr>row_text = ''ab''\<rparr>] (Finite 2) (Finite 1)
           = (None, Inl IndexError)"
    by (rule embed_dataset_index_error[where k = 2]) (simp_all add: sample_one_row)
  have d: "embed_dataset (\<lambda>ts. Inr ()) [\<lparr>row_text = ''ab''\<rparr>] (Finite (- (1 / 2))) (Finite 1)
           = (Some [], Inl ZeroDivisionError)"
    using run_no_rows[of "[\<lparr>row_text = ''ab''\<rparr>]" "Finite (- (1 / 2))" 0 "\<lambda>ts. Inr ()" "Finite 1"]
    by (simp add: sample_other_scales stats_negative_scale)
  have e: "embed_dataset (\<lambda>ts. Inr ()) [\<lparr>row_text = ''ab''\<rparr>] PosInf (Finite 1)
           = (None, Inl OverflowError)"
    "embed_dataset (\<lambda>ts. Inr ()) [\<lparr>row_text = ''ab''\<rparr>] NaN (Finite 1) = (None, Inl ValueError)"
    by (simp_all add: embed_dataset_sample_error sample_other_scales)
  show ?thesis
    using a b c d e f
      embed_dataset_scale[of "[\<lparr>row_text = ''ab''\<rparr>]" 1 "\<lambda>ts. Inr ()" "Finite 1" 1 NaN]
    by simp
qed

subsection \<open>The statistics of a run\<close>

lemma float_of_int_nonneg:
  assumes "float_of_int n = Inr c" "0 \<le> n"
  shows "\<exists>r. c = Finite r \<and> 0 \<le> r"
proof -
  obtain r where r: "round_to_double (of_int n) = Finite r" "c = Finite r"
    using assms(1) by (auto simp: float_of_int_def split: pyfloat.splits)
  have "0 \<le> r" using round_to_double_sign[OF r(1)] assms(2) by simp
  with r(2) show ?thesis by simp
qed

lemma float_truediv_nonneg:
  assumes "float_truediv (Finite a) (Finite b) = Inr (Finite q)" "0 \<le> a" "0 < b"
  shows "round_to_double (a / b) = Finite q \<and> 0 \<le> q"
proof -
  have r: "round_to_double (a / b) = Finite q"
    using assms(1) by (simp add: float_truediv_def split: if_splits)
  have "0 \<le> a / b" using assms(2,3) by simp
  with round_to_double_sign[OF r] r show ?thesis by simp
qed

text \<open>
  Claim C5, as stated, fails twice. The corpus count is not an input of the statistics but
  the constant 19560538957 of the code: with 50000 characters in 10 seconds at the scale
  \<^verbatim>\<open>0.001\<close> the last entry is \<^verbatim>\<open>45 days, 6:41:47.791400\<close>, not \<^verbatim>\<open>2:46:40\<close>. And
  the extrapolated duration is not the quotient: for a duration of 1.5 seconds and a scale
  of 1 the quotient is 1.5 and the reported value is 1.
\<close>

theorem run_statistics_quotient_counterexample:
  "map_sum id (\<lambda>d. map_of d ''extrapolated_duration_tps_fmt'')
     (run_statistics 50000 (Finite 10) (Finite (1152921504606847 / 1152921504606846976)))
     = Inr (Some (PyStr ''45 days, 6:41:47.791400''))
   \<and> map_sum id (\<lambda>d. map_of d ''extrapolated_duration'')
       (run_statistics 2 (Finite (3 / 2)) (Finite 1)) = Inr (Some (PyInt 1))
   \<and> float_truediv (Finite (3 / 2)) (Finite 1) = Inr (Finite (3 / 2))"
  by (simp add: stats_example stats_3_2_1 float_truediv_def double_3_2)

text \<open>
  Claim C5, amended. For a character count that is not negative and a positive duration,
  \<^verbatim>\<open>characters_per_second\<close> is the floor of the float quotient of the count and the
  duration, \<^verbatim>\<open>extrapolated_duration\<close> is the float quotient of the duration and
  \<^verbatim>\<open>down_scale\<close> truncated towards zero to an integer, and
  \<^verbatim>\<open>extrapolated_duration_tps_fmt\<close> formats the quotient of the constant 19560538957 and
  \<^verbatim>\<open>characters_per_second\<close>. With 50000 characters in 10 seconds and the scale
  \<^verbatim>\<open>0.001\<close> the values are 5000, 10000 (formatted \<^verbatim>\<open>2:46:40\<close>) and
  \<^verbatim>\<open>45 days, 6:41:47.791400\<close>.
\<close>

theorem run_statistics_values:
  assumes "run_statistics counter duration down_scale = Inr d"
    and "0 \<le> counter" and "duration = Finite t" and "0 < t"
  shows "(\<exists>c q x.
            float_of_int counter = Inr (Finite c)
          \<and> float_truediv (Finite c) duration = Inr (Finite q)
          \<and> map_of d ''characters_per_second'' = Some (PyInt \<lfloor>q\<rfloor>)
          \<and> float_truediv duration down_scale = Inr (Finite x)
          \<and> map_of d ''extrapolated_duration''
               = Some (PyInt (if x < 0 then \<lceil>x\<rceil> else \<lfloor>x\<rfloor>))
          \<and> (\<exists>tps td. int_truediv 19560538957 \<lfloor>q\<rfloor> = Inr tps
                \<and> timedelta_of_float tps = Inr td
                \<and> map_of d ''extrapolated_duration_tps_fmt'' = Some (PyStr (timedelta_str td))))
       \<and> round_to_double (1 / 1000) = Finite (1152921504606847 / 1152921504606846976)
       \<and> run_statistics 50000 (Finite 10) (Finite (1152921504606847 / 1152921504606846976))
           = Inr [(''downscale'', PyFloat (Finite (1152921504606847 / 1152921504606846976))),
                  (''n_gpu'', PyInt 6),
                  (''duration'', PyFloat (Finite 10)), (''characters_per_second'', PyInt 5000),
                  (''extrapolated_duration'', PyInt 10000),
                  (''extrapolated_duration_fmt'', PyStr ''2:46:40''),
                  (''extrapolated_duration_tps_fmt'', PyStr ''45 days, 6:41:47.791400'')]"
proof -
  from run_statistics_Inr[OF assms(1)] obtain c' q' cps x' ext td tps td_tps where
    c: "float_of_int counter = Inr c'"
    and q: "float_truediv c' duration = Inr q'"
    and cps: "py_int q' = Inr cps"
    and x: "float_truediv duration down_scale = Inr x'"
    and ext: "py_int x' = Inr ext"
    and tps: "int_truediv dataset_chars cps = Inr tps"
    and td: "timedelta_of_float tps = Inr td_tps"
    and d: "d = [(''downscale'', PyFloat down_scale),
                 (''n_gpu'', PyInt N_GPU),
                 (''duration'', PyFloat duration),
                 (''characters_per_second'', PyInt cps),
                 (''extrapolated_duration'', PyInt ext),
                 (''extrapolated_duration_fmt'', PyStr (timedelta_str td)),
                 (''extrapolated_duration_tps_fmt'', PyStr (timedelta_str td_tps))]"
    by blast
  obtain cr where cr: "c' = Finite cr" "0 \<le> cr"
    using float_of_int_nonneg[OF c assms(2)] by blast
  obtain qr where qr: "q' = Finite qr" "cps = py_trunc qr"
    using py_int_Finite[OF cps] by blast
  have "0 \<le> qr"
    using float_truediv_nonneg[of cr t qr] q cr qr(1) assms(3,4) by simp
  then have cps_floor: "cps = \<lfloor>qr\<rfloor>" using qr(2) by (simp add: py_trunc_def)
  obtain xr where xr: "x' = Finite xr" "ext = py_trunc xr"
    using py_int_Finite[OF ext] by blast
  have g: "\<exists>c q x.
            float_of_int counter = Inr (Finite c)
          \<and> float_truediv (Finite c) duration = Inr (Finite q)
          \<and> map_of d ''characters_per_second'' = Some (PyInt \<lfloor>q\<rfloor>)
          \<and> float_truediv duration down_scale = Inr (Finite x)
          \<and> map_of d ''extrapolated_duration''
               = Some (PyInt (if x < 0 then \<lceil>x\<rceil> else \<lfloor>x\<rfloor>))
          \<and> (\<exists>tps td. int_truediv 19560538957 \<lfloor>q\<rfloor> = Inr tps
                \<and> timedelta_of_float tps = Inr td
                \<and> map_of d ''extrapolated_duration_tps_fmt'' = Some (PyStr (timedelta_str td)))"
  proof (intro exI conjI)
    show "float_of_int counter = Inr (Finite cr)" using c cr(1) by simp
    show "float_truediv (Finite cr) duration = Inr (Finite qr)" using q cr(1) qr(1) by simp
    show "map_of d ''characters_per_second'' = Some (PyInt \<lfloor>qr\<rfloor>)"
      unfolding d using cps_floor by simp
    show "float_truediv duration down_scale = Inr (Finite xr)" using x xr(1) by simp
    show "map_of d ''extrapolated_duration''
            = Some (PyInt (if xr < 0 then \<lceil>xr\<rceil> else \<lfloor>xr\<rfloor>))"
      unfolding d using xr(2) by (simp add: py_trunc_def)
    show "int_truediv 19560538957 \<lfloor>qr\<rfloor> = Inr tps"
      using tps cps_floor by (simp add: dataset_chars_def)
    show "timedelta_of_float tps = Inr td_tps" by (rule td)
    show "map_of d ''extrapolated_duration_tps_fmt'' = Some (PyStr (timedelta_str td_tps))"
      unfolding d by simp
  qed
  from g double_lit_001 stats_example show ?thesis by blast
qed

theorem run_statistics_values_witness:
  "run_statistics 50000 (Finite 10) (Finite (1152921504606847 / 1152921504606846976))
     = Inr [(''downscale'', PyFloat (Finite (1152921504606847 / 1152921504606846976))),
            (''n_gpu'', PyInt 6),
            (''duration'', PyFloat (Finite 10)), (''characters_per_second'', PyInt 5000),
            (''extrapolated_duration'', PyInt 10000),
            (''extrapolated_duration_fmt'', PyStr ''2:46:40''),
            (''extrapolated_duration_tps_fmt'', PyStr ''45 days, 6:41:47.791400'')]
   \<and> (0::int) \<le> 50000 \<and> (0::rat) < 10
   \<and> float_of_int 50000 = Inr (Finite 50000)
   \<and> float_truediv (Finite 50000) (Finite 10) = Inr (Finite 5000)
   \<and> float_truediv (Finite 10) (Finite (1152921504606847 / 1152921504606846976))
       = Inr (Finite 10000)
   \<and> int_truediv 19560538957 5000 = Inr (Finite (8401187511244895 / 2147483648))"
  using run_statistics_values[OF stats_example, of 10]
  by (simp add: float_of_int_def float_truediv_def int_truediv_def double_50000 double_5000
      double_10_by_001 double_chars_5000)

subsection \<open>Default and configured batch size\<close>

lemma generate_batches_le:
  "0 < bs \<Longrightarrow> b \<in> set (generate_batches xs bs) \<Longrightarrow> int (length b) \<le> bs"
  unfolding generate_batches_def by (rule batches_loop_le) simp_all

lemma generate_batches_full:
  "0 < bs \<Longrightarrow> b \<in> set (butlast (generate_batches xs bs)) \<Longrightarrow> int (length b) = bs"
  unfolding generate_batches_def by (rule batches_loop_butlast) simp_all

text \<open>
  Claim C7, as stated, fails: with \<^verbatim>\<open>batch_size\<close> omitted, 51 chunks give a batch of
  50 and a batch of 1, so a batch that is not the last has not 128 chunks.
\<close>

theorem default_batch_size_counterexample:
  "map length (generate_batches_default (replicate 51 CHR ''a'')) = [50, 1]
   \<and> \<not> list_all (\<lambda>b. length b = 128) (butlast (generate_batches_default (replicate 51 CHR ''a'')))"
  by code_simp

text \<open>
  Claim C7, amended. The default of \<^verbatim>\<open>batch_size\<close> is 50: with no batch size supplied
  every batch has at most 50 chunks and every batch but the last exactly 50. The run passes
  \<^verbatim>\<open>BATCH_SIZE = 128\<close> itself, so the batches it dispatches have at most 128 chunks, and
  all but the last exactly 128.
\<close>

theorem default_batch_size:
  "(\<forall>b \<in> set (generate_batches_default xs). length b \<le> 50)
   \<and> (\<forall>b \<in> set (butlast (generate_batches_default xs)). length b = 50)
   \<and> (fst (embed_dataset server dataset down_scale duration) = Some batches
        \<longrightarrow> (\<forall>b \<in> set batches. length b \<le> 128)
          \<and> (\<forall>b \<in> set (butlast batches). length b = 128))"
proof -
  have a: "\<forall>b \<in> set (generate_batches_default xs). length b \<le> 50"
    using generate_batches_le[of 50 _ xs] by (auto simp: generate_batches_default_def)
  have b: "\<forall>b \<in> set (butlast (generate_batches_default xs)). length b = 50"
    using generate_batches_full[of 50 _ xs] by (auto simp: generate_batches_default_def)
  have c: "(\<forall>b \<in> set batches. length b \<le> 128) \<and> (\<forall>b \<in> set (butlast batches). length b = 128)"
    if h: "fst (embed_dataset server dataset down_scale duration) = Some batches"
  proof -
    obtain chunks where "batches = generate_batches chunks 128"
      using embed_dataset_batches[OF h] by (auto simp: BATCH_SIZE_def)
    then show ?thesis
      using generate_batches_le[of 128 _ chunks] generate_batches_full[of 128 _ chunks] by auto
  qed
  from a b c show ?thesis by blast
qed

theorem default_batch_size_witness:
  "map length (generate_batches_default (replicate 51 CHR ''a'')) = [50, 1]
   \<and> list_all (\<lambda>b. length b \<le> 50) (generate_batches_default (replicate 51 CHR ''a''))
   \<and> list_all (\<lambda>b. length b = 50) (butlast (generate_batches_default (replicate 51 CHR ''a'')))
   \<and> fst (embed_dataset (\<lambda>ts. Inr ()) [\<lparr>row_text = ''ab''\<rparr>] (Finite 1) (Finite 1)) = Some [[''ab'']]
   \<and> list_all (\<lambda>b. length b \<le> 128) [[''ab'']]"
proof -
  have m: "map length (generate_batches_default (replicate 51 CHR ''a'')) = [50, 1]"
    by code_simp
  have r: "fst (embed_dataset (\<lambda>ts. Inr ()) [\<lparr>row_text = ''ab''\<rparr>] (Finite 1) (Finite 1))
           = Some [[''ab'']]"
    by (simp add: run_one_row sample_one_row)
  show ?thesis
    using m r default_batch_size[of "replicate 51 CHR ''a''" "\<lambda>ts. Inr ()"
        "[\<lparr>row_text = ''ab''\<rparr>]" "Finite 1" "Finite 1" "[[''ab'']]"]
    by (simp add: list_all_iff)
qed

subsection \<open>The run report\<close>

text \<open>
  Claim C8, as stated, fails: the dictionary of a run has no key \<^verbatim>\<open>down_scale\<close>; its
  first key is \<^verbatim>\<open>downscale\<close>.
\<close>

theorem run_report_fields_counterexample:
  "map_sum id (\<lambda>d. (map fst d, map_of d ''down_scale''))
     (snd (embed_dataset (\<lambda>ts. Inr ()) [\<lparr>row_text = ''ab''\<rparr>] (Finite 1) (Finite 1)))
   = Inr ([''downscale'', ''n_gpu'', ''duration'', ''characters_per_second'',
           ''extrapolated_duration'', ''extrapolated_duration_fmt'',
           ''extrapolated_duration_tps_fmt''], None)"
  by (simp add: run_one_row sample_one_row stats_1_1)

text \<open>
  Claim C8, amended. The dictionary a run returns has exactly the keys \<^verbatim>\<open>downscale\<close>,
  \<^verbatim>\<open>n_gpu\<close>, \<^verbatim>\<open>duration\<close>, \<^verbatim>\<open>characters_per_second\<close>,
  \<^verbatim>\<open>extrapolated_duration\<close>, \<^verbatim>\<open>extrapolated_duration_fmt\<close> and
  \<^verbatim>\<open>extrapolated_duration_tps_fmt\<close>, in this order.
\<close>

theorem run_report_fields:
  assumes "snd (embed_dataset server dataset down_scale duration) = Inr d"
  shows "map fst d = [''downscale'', ''n_gpu'', ''duration'', ''characters_per_second'',
           ''extrapolated_duration'', ''extrapolated_duration_fmt'',
           ''extrapolated_duration_tps_fmt'']"
proof -
  obtain counter where "run_statistics counter duration down_scale = Inr d"
    using embed_dataset_Inr[OF assms] by blast
  from run_statistics_Inr[OF this] show ?thesis by auto
qed

theorem run_report_fields_witness:
  "snd (embed_dataset (\<lambda>ts. Inr ()) [\<lparr>row_text = ''ab''\<rparr>] (Finite 1) (Finite 2))
     = Inr [(''downscale'', PyFloat (Finite 1)), (''n_gpu'', PyInt 6),
            (''duration'', PyFloat (Finite 2)), (''characters_per_second'', PyInt 1),
            (''extrapolated_duration'', PyInt 2),
            (''extrapolated_duration_fmt'', PyStr ''0:00:02''),
            (''extrapolated_duration_tps_fmt'', PyStr ''226395 days, 3:02:37'')]
   \<and> map fst [(''downscale'', PyFloat (Finite 1)), (''n_gpu'', PyInt 6),
            (''duration'', PyFloat (Finite 2)), (''characters_per_second'', PyInt 1),
            (''extrapolated_duration'', PyInt 2),
            (''extrapolated_duration_fmt'', PyStr ''0:00:02''),
            (''extrapolated_duration_tps_fmt'', PyStr ''226395 days, 3:02:37'')]
       = [''downscale'', ''n_gpu'', ''duration'', ''characters_per_second'',
           ''extrapolated_duration'', ''extrapolated_duration_fmt'',
           ''extrapolated_duration_tps_fmt'']"
proof -
  have e: "snd (embed_dataset (\<lambda>ts. Inr ()) [\<lparr>row_text = ''ab''\<rparr>] (Finite 1) (Finite 2))
     = Inr [(''downscale'', PyFloat (Finite 1)), (''n_gpu'', PyInt 6),
            (''duration'', PyFloat (Finite 2)), (''characters_per_second'', PyInt 1),
            (''extrapolated_duration'', PyInt 2),
            (''extrapolated_duration_fmt'', PyStr ''0:00:02''),
            (''extrapolated_duration_tps_fmt'', PyStr ''226395 days, 3:02:37'')]"
    by (simp add: run_one_row sample_one_row stats_2_1)
  from run_report_fields[OF e] e show ?thesis by simp
qed

text \<open>
  Claim C10. The reported \<^verbatim>\<open>extrapolated_duration\<close> is the float quotient of the duration
  and \<^verbatim>\<open>down_scale\<close> (for finite operands the double nearest to their quotient) truncated
  towards zero to an integer, its floor when both are positive, and the reported
  \<^verbatim>\<open>duration\<close> is the measured float itself.
\<close>

theorem extrapolated_duration_truncated:
  assumes "snd (embed_dataset server dataset down_scale duration) = Inr d"
  shows "\<exists>x. float_truediv duration down_scale = Inr (Finite x)
           \<and> map_of d ''extrapolated_duration''
               = Some (PyInt (if x < 0 then \<lceil>x\<rceil> else \<lfloor>x\<rfloor>))
           \<and> (\<forall>a b. duration = Finite a \<and> down_scale = Finite b \<and> 0 < a \<and> 0 < b
                 \<longrightarrow> round_to_double (a / b) = Finite x
                   \<and> map_of d ''extrapolated_duration'' = Some (PyInt \<lfloor>x\<rfloor>))
           \<and> map_of d ''duration'' = Some (PyFloat duration)"
proof -
  obtain counter where "run_statistics counter duration down_scale = Inr d"
    using embed_dataset_Inr[OF assms] by blast
  from run_statistics_Inr[OF this] obtain x' ext where
    x: "float_truediv duration down_scale = Inr x'"
    and ext: "py_int x' = Inr ext"
    and e: "map_of d ''extrapolated_duration'' = Some (PyInt ext)"
    and u: "map_of d ''duration'' = Some (PyFloat duration)"
    by auto
  obtain xr where xr: "x' = Finite xr" "ext = py_trunc xr"
    using py_int_Finite[OF ext] by blast
  have p: "\<forall>a b. duration = Finite a \<and> down_scale = Finite b \<and> 0 < a \<and> 0 < b
             \<longrightarrow> round_to_double (a / b) = Finite xr
               \<and> map_of d ''extrapolated_duration'' = Some (PyInt \<lfloor>xr\<rfloor>)"
  proof (intro allI impI)
    fix a b
    assume h: "duration = Finite a \<and> down_scale = Finite b \<and> 0 < a \<and> 0 < b"
    then have "round_to_double (a / b) = Finite xr \<and> 0 \<le> xr"
      using float_truediv_nonneg[of a b xr] x xr(1) by simp
    then show "round_to_double (a / b) = Finite xr
               \<and> map_of d ''extrapolated_duration'' = Some (PyInt \<lfloor>xr\<rfloor>)"
      using e xr(2) by (simp add: py_trunc_def)
  qed
  have "map_of d ''extrapolated_duration''
          = Some (PyInt (if xr < 0 then \<lceil>xr\<rceil> else \<lfloor>xr\<rfloor>))"
    using e xr(2) by (simp add: py_trunc_def)
  with x xr(1) p u show ?thesis by blast
qed

theorem extrapolated_duration_truncated_witness:
  "snd (embed_dataset (\<lambda>ts. Inr ()) [\<lparr>row_text = ''ab''\<rparr>] (Finite 1) (Finite (3 / 2)))
     = Inr [(''downscale'', PyFloat (Finite 1)), (''n_gpu'', PyInt 6),
            (''duration'', PyFloat (Finite (3 / 2))), (''characters_per_second'', PyInt 1),
            (''extrapolated_duration'', PyInt 1),
            (''extrapolated_duration_fmt'', PyStr ''0:00:01''),
            (''extrapolated_duration_tps_fmt'', PyStr ''226395 days, 3:02:37'')]
   \<and> float_truediv (Finite (3 / 2)) (Finite 1) = Inr (Finite (3 / 2))
   \<and> (0::rat) < 3 / 2 \<and> (0::rat) < 1
   \<and> \<lfloor>3 / 2 :: rat\<rfloor> = 1"
proof -
  have e: "snd (embed_dataset (\<lambda>ts. Inr ()) [\<lparr>row_text = ''ab''\<rparr>] (Finite 1) (Finite (3 / 2)))
     = Inr [(''downscale'', PyFloat (Finite 1)), (''n_gpu'', PyInt 6),
            (''duration'', PyFloat (Finite (3 / 2))), (''characters_per_second'', PyInt 1),
            (''extrapolated_duration'', PyInt 1),
            (''extrapolated_duration_fmt'', PyStr ''0:00:01''),
            (''extrapolated_duration_tps_fmt'', PyStr ''226395 days, 3:02:37'')]"
    by (simp add: run_one_row sample_one_row stats_3_2_1)
  from extrapolated_duration_truncated[OF e] e show ?thesis
    by (simp add: floor_rat_numeral_div float_truediv_def double_3_2)
qed

end
